theory Spec2Isabelle
  imports
    Main
    "HOL-Library.Word"
    "HOL-Library.Char_ord"
    "HOL-Library.List_Lexorder"
    "HOL-Library.Multiset"
begin

unbundle bit_operations_syntax

section \<open>Retention policy enforcement (services/retention)\<close>

subsection \<open>Metadata as the sweeps read it\<close>

text \<open>
  The sweeps traverse \<^verbatim>\<open>[]meta.DatabaseInfo\<close>. The fields they touch are
  \<^verbatim>\<open>d.Name\<close>, \<^verbatim>\<open>d.RetentionPolicies\<close>, \<^verbatim>\<open>r.Name\<close>, \<^verbatim>\<open>g.ID\<close>, \<^verbatim>\<open>g.Shards\<close> and
  \<^verbatim>\<open>sh.ID\<close>; Go slices are lists, \<^verbatim>\<open>uint64\<close> is a 64-bit word. The end time, the
  deletion mark and the duration are the fields the two derived views of a policy are
  computed from; times and durations are integers, counted in one unit of time.
\<close>

type_synonym uint64 = "64 word"

record ShardInfo =
  sh_ID :: uint64

record ShardGroupInfo =
  sg_ID :: uint64
  sg_EndTime :: int
  sg_Deleted :: bool
  sg_Shards :: "ShardInfo list"

record RetentionPolicyInfo =
  rp_Name :: string
  rp_Duration :: int
  rp_ShardGroups :: "ShardGroupInfo list"

record DatabaseInfo =
  db_Name :: string
  db_RetentionPolicies :: "RetentionPolicyInfo list"

subsection \<open>The service's collaborators\<close>

text \<open>
  \<^verbatim>\<open>Service.MetaClient\<close> and \<^verbatim>\<open>Service.TSDBStore\<close> are interfaces: their
  implementations are parameters. \<open>'m\<close> is the state behind the meta client, \<open>'t\<close> the
  state behind the shard store. \<^verbatim>\<open>Databases\<close> and \<^verbatim>\<open>ShardIDs\<close> read that state; the two
  deletions return \<^verbatim>\<open>error\<close> (\<open>None\<close> is \<^verbatim>\<open>nil\<close>, \<open>Some msg\<close> an error with
  \<^verbatim>\<open>err.Error() = msg\<close>) and the state they leave behind.

  \<^verbatim>\<open>RetentionPolicyInfo.ExpiredShardGroups\<close> and \<^verbatim>\<open>RetentionPolicyInfo.DeletedShardGroups\<close>
  belong to package meta, whose source is not part of the retention package; the sweeps are
  verified for every implementation of them, so they are parameters as well. \<open>Now n\<close> is
  what the \<open>n\<close>-th evaluation of \<^verbatim>\<open>time.Now().UTC()\<close> returns.
\<close>

record ('m, 't) Service =
  Databases :: "'m \<Rightarrow> DatabaseInfo list"
  DeleteShardGroup :: "string \<Rightarrow> string \<Rightarrow> uint64 \<Rightarrow> 'm \<Rightarrow> string option \<times> 'm"
  ShardIDs :: "'t \<Rightarrow> uint64 list"
  DeleteShard :: "uint64 \<Rightarrow> 't \<Rightarrow> string option \<times> 't"
  ExpiredShardGroups :: "RetentionPolicyInfo \<Rightarrow> int \<Rightarrow> ShardGroupInfo list"
  DeletedShardGroups :: "RetentionPolicyInfo \<Rightarrow> ShardGroupInfo list"
  Now :: "nat \<Rightarrow> int"

text \<open>
  What a sweep can be observed to do: the collaborator methods it invokes, in order, and
  the lines it hands to \<^verbatim>\<open>s.logger\<close>. A log line keeps the arguments of its
  \<^verbatim>\<open>Printf\<close> in the order of the format string.
\<close>

datatype invocation =
  CallDatabases
  | CallDeleteShardGroup string string uint64
  | CallShardIDs
  | CallDeleteShard uint64

datatype log_line =
  LogShardGroupFailed uint64 string string string
  | LogShardGroupDeleted uint64 string string
  | LogCommencing
  | LogShardFailed uint64 string string string
  | LogShardDeleted uint64 string string

record ('m, 't) world =
  w_meta :: 'm
  w_store :: 't
  w_reads :: nat
  w_calls :: "invocation list"
  w_log :: "log_line list"

definition invoke :: "invocation \<Rightarrow> ('m, 't) world \<Rightarrow> ('m, 't) world" where
  "invoke c w = w\<lparr>w_calls := w_calls w @ [c]\<rparr>"

definition logger_Print :: "log_line \<Rightarrow> ('m, 't) world \<Rightarrow> ('m, 't) world" where
  "logger_Print l w = w\<lparr>w_log := w_log w @ [l]\<rparr>"

subsection \<open>deleteShards\<close>

text \<open>
  \<^verbatim>\<open>
  type deletionInfo struct { db string; rp string }
  deletedShardIDs := make(map[uint64]deletionInfo, 0)
  dbs := s.MetaClient.Databases()
  for _, d := range dbs {
    for _, r := range d.RetentionPolicies {
      for _, g := range r.DeletedShardGroups() {
        for _, sh := range g.Shards {
          deletedShardIDs[sh.ID] = deletionInfo{db: d.Name, rp: r.Name}
  } } } }
  \<close>
\<close>

record deletionInfo =
  di_db :: string
  di_rp :: string

definition collect_deleted ::
  "('m, 't) Service \<Rightarrow> DatabaseInfo list \<Rightarrow> (uint64 \<rightharpoonup> deletionInfo) \<Rightarrow> (uint64 \<rightharpoonup> deletionInfo)" where
  "collect_deleted s dbs =
     fold (\<lambda>d.
       fold (\<lambda>r.
         fold (\<lambda>g.
           fold (\<lambda>sh m. m(sh_ID sh \<mapsto> \<lparr>di_db = db_Name d, di_rp = rp_Name r\<rparr>))
             (sg_Shards g))
           (DeletedShardGroups s r))
         (db_RetentionPolicies d))
       dbs"

text \<open>
  \<^verbatim>\<open>
  for _, id := range s.TSDBStore.ShardIDs() {
    if di, ok := deletedShardIDs[id]; ok {
      if err := s.TSDBStore.DeleteShard(id); err != nil {
        s.logger.Printf("failed to delete shard ID %d from database %s, retention policy %s: %s",
          id, di.db, di.rp, err.Error())
        continue
      }
      s.logger.Printf("shard ID %d from database %s, retention policy %s, deleted", id, di.db, di.rp)
    }
  }
  \<close>
\<close>

definition reap_shard ::
  "('m, 't) Service \<Rightarrow> (uint64 \<rightharpoonup> deletionInfo) \<Rightarrow> uint64 \<Rightarrow> ('m, 't) world \<Rightarrow> ('m, 't) world" where
  "reap_shard s deletedShardIDs ident w =
     (case deletedShardIDs ident of
        None \<Rightarrow> w
      | Some di \<Rightarrow>
          (case DeleteShard s ident (w_store w) of
             (Some err, t') \<Rightarrow>
               logger_Print (LogShardFailed ident (di_db di) (di_rp di) err)
                 (invoke (CallDeleteShard ident) (w\<lparr>w_store := t'\<rparr>))
           | (None, t') \<Rightarrow>
               logger_Print (LogShardDeleted ident (di_db di) (di_rp di))
                 (invoke (CallDeleteShard ident) (w\<lparr>w_store := t'\<rparr>))))"

definition deleteShards :: "('m, 't) Service \<Rightarrow> ('m, 't) world \<Rightarrow> ('m, 't) world" where
  "deleteShards s w =
     (let w1 = logger_Print LogCommencing w;
          dbs = Databases s (w_meta w1);
          w2 = invoke CallDatabases w1;
          deletedShardIDs = collect_deleted s dbs Map.empty;
          ids = ShardIDs s (w_store w2);
          w3 = invoke CallShardIDs w2
      in fold (reap_shard s deletedShardIDs) ids w3)"

text \<open>The collaborator invocations a sweep adds to the history it started from.\<close>

definition calls_of ::
  "(('m, 't) world \<Rightarrow> ('m, 't) world) \<Rightarrow> ('m, 't) world \<Rightarrow> invocation list" where
  "calls_of sweep w = drop (length (w_calls w)) (w_calls (sweep w))"

text \<open>
  The orphan candidates in the spec's words: the shards of the shard groups that the
  metadata reports as deleted, over every database and policy.
\<close>

definition orphan_candidate :: "('m, 't) Service \<Rightarrow> DatabaseInfo list \<Rightarrow> uint64 \<Rightarrow> bool" where
  "orphan_candidate s dbs ident \<longleftrightarrow>
     (\<exists>d \<in> set dbs. \<exists>r \<in> set (db_RetentionPolicies d).
        \<exists>g \<in> set (DeletedShardGroups s r). \<exists>sh \<in> set (sg_Shards g). sh_ID sh = ident)"

text \<open>
  The assignments of the four nested loops, in the order the loops make them: the sequence
  of \<^verbatim>\<open>deletedShardIDs[sh.ID] = deletionInfo{...}\<close> statements of one sweep.
\<close>

definition orphan_entries ::
  "('m, 't) Service \<Rightarrow> DatabaseInfo list \<Rightarrow> (uint64 \<times> deletionInfo) list" where
  "orphan_entries s dbs =
     [(sh_ID sh, \<lparr>di_db = db_Name d, di_rp = rp_Name r\<rparr>).
        d \<leftarrow> dbs, r \<leftarrow> db_RetentionPolicies d, g \<leftarrow> DeletedShardGroups s r, sh \<leftarrow> sg_Shards g]"

definition put_entry :: "'k \<times> 'v \<Rightarrow> ('k \<rightharpoonup> 'v) \<Rightarrow> ('k \<rightharpoonup> 'v)" where
  "put_entry e m = m(fst e \<mapsto> snd e)"

subsection \<open>deleteShardGroups\<close>

text \<open>
  \<^verbatim>\<open>
  dbs := s.MetaClient.Databases()
  for _, d := range dbs {
    for _, r := range d.RetentionPolicies {
      for _, g := range r.ExpiredShardGroups(time.Now().UTC()) {
        if err := s.MetaClient.DeleteShardGroup(d.Name, r.Name, g.ID); err != nil {
          s.logger.Printf("failed to delete shard group %d from database %s, retention policy %s: %s",
            g.ID, d.Name, r.Name, err.Error())
        } else {
          s.logger.Printf("deleted shard group %d from database %s, retention policy %s",
            g.ID, d.Name, r.Name)
        }
  } } }
  \<close>
  The range expression of the innermost loop is evaluated once for each policy, so the
  clock is read once for each policy, when the loop reaches it.
\<close>

definition reap_shard_group ::
  "('m, 't) Service \<Rightarrow> DatabaseInfo \<Rightarrow> RetentionPolicyInfo \<Rightarrow> ShardGroupInfo \<Rightarrow>
     ('m, 't) world \<Rightarrow> ('m, 't) world" where
  "reap_shard_group s d r g w =
     (case DeleteShardGroup s (db_Name d) (rp_Name r) (sg_ID g) (w_meta w) of
        (Some err, m') \<Rightarrow>
          logger_Print (LogShardGroupFailed (sg_ID g) (db_Name d) (rp_Name r) err)
            (invoke (CallDeleteShardGroup (db_Name d) (rp_Name r) (sg_ID g)) (w\<lparr>w_meta := m'\<rparr>))
      | (None, m') \<Rightarrow>
          logger_Print (LogShardGroupDeleted (sg_ID g) (db_Name d) (rp_Name r))
            (invoke (CallDeleteShardGroup (db_Name d) (rp_Name r) (sg_ID g)) (w\<lparr>w_meta := m'\<rparr>)))"

definition sweep_policy ::
  "('m, 't) Service \<Rightarrow> DatabaseInfo \<Rightarrow> RetentionPolicyInfo \<Rightarrow> ('m, 't) world \<Rightarrow> ('m, 't) world" where
  "sweep_policy s d r w =
     (let now = Now s (w_reads w);
          w1 = w\<lparr>w_reads := Suc (w_reads w)\<rparr>
      in fold (reap_shard_group s d r) (ExpiredShardGroups s r now) w1)"

definition deleteShardGroups :: "('m, 't) Service \<Rightarrow> ('m, 't) world \<Rightarrow> ('m, 't) world" where
  "deleteShardGroups s w =
     (let dbs = Databases s (w_meta w);
          w1 = invoke CallDatabases w
      in fold (\<lambda>d. fold (sweep_policy s d) (db_RetentionPolicies d)) dbs w1)"

text \<open>
  The policies in the order the two outer loops reach them, each with its database, and
  the deletions the sweep attempts for the \<open>k\<close>-th of them: one for each group that
  \<^verbatim>\<open>ExpiredShardGroups\<close> returns at the clock reading taken for that policy.
\<close>

definition policies :: "DatabaseInfo list \<Rightarrow> (DatabaseInfo \<times> RetentionPolicyInfo) list" where
  "policies dbs = [(d, r). d \<leftarrow> dbs, r \<leftarrow> db_RetentionPolicies d]"

definition policy_batch ::
  "('m, 't) Service \<Rightarrow> nat \<Rightarrow> DatabaseInfo \<times> RetentionPolicyInfo \<Rightarrow> invocation list" where
  "policy_batch s n p =
     map (\<lambda>g. CallDeleteShardGroup (db_Name (fst p)) (rp_Name (snd p)) (sg_ID g))
       (ExpiredShardGroups s (snd p) (Now s n))"

subsection \<open>The two derived views of a policy, and a store to run the sweeps on\<close>

text \<open>
  Modelled from the spec: \<^verbatim>\<open>RetentionPolicyInfo.ExpiredShardGroups\<close> is not among the
  sources. The spec gives it as the shard groups of the policy "whose end time plus
  retention duration has passed" (end time + duration \<open>\<le>\<close> now).
\<close>

definition spec_ExpiredShardGroups :: "RetentionPolicyInfo \<Rightarrow> int \<Rightarrow> ShardGroupInfo list" where
  "spec_ExpiredShardGroups r now =
     filter (\<lambda>g. sg_EndTime g + rp_Duration r \<le> now) (rp_ShardGroups r)"

text \<open>
  Modelled from the spec: \<^verbatim>\<open>RetentionPolicyInfo.DeletedShardGroups\<close> is not among the
  sources. The spec gives it as the shard groups of the policy "already marked deleted in
  metadata".
\<close>

definition spec_DeletedShardGroups :: "RetentionPolicyInfo \<Rightarrow> ShardGroupInfo list" where
  "spec_DeletedShardGroups r = filter sg_Deleted (rp_ShardGroups r)"

text \<open>
  A service over in-memory collaborators, for running the sweeps on concrete data. The
  meta client holds the database list and refuses to delete the shard groups whose ID is in
  \<open>bad_groups\<close>; the store holds the shard IDs and refuses to delete those in \<open>bad_shards\<close>
  ("disk busy"). A successful \<^verbatim>\<open>DeleteShardGroup\<close> marks the group deleted; a successful
  \<^verbatim>\<open>DeleteShard\<close> removes the ID.
\<close>

definition mark_deleted :: "string \<Rightarrow> string \<Rightarrow> uint64 \<Rightarrow> DatabaseInfo list \<Rightarrow> DatabaseInfo list" where
  "mark_deleted db rp ident =
     map (\<lambda>d. if db_Name d \<noteq> db then d else
       d\<lparr>db_RetentionPolicies :=
           map (\<lambda>r. if rp_Name r \<noteq> rp then r else
             r\<lparr>rp_ShardGroups :=
                 map (\<lambda>g. if sg_ID g = ident then g\<lparr>sg_Deleted := True\<rparr> else g)
                   (rp_ShardGroups r)\<rparr>)
             (db_RetentionPolicies d)\<rparr>)"

definition memory_service ::
  "uint64 list \<Rightarrow> uint64 list \<Rightarrow> int \<Rightarrow> (DatabaseInfo list, uint64 list) Service" where
  "memory_service bad_groups bad_shards t =
     \<lparr>Databases = (\<lambda>m. m),
      DeleteShardGroup = (\<lambda>db rp ident m.
        if ident \<in> set bad_groups then (Some ''not leader'', m)
        else (None, mark_deleted db rp ident m)),
      ShardIDs = (\<lambda>ids. ids),
      DeleteShard = (\<lambda>ident ids.
        if ident \<in> set bad_shards then (Some ''disk busy'', ids)
        else (None, removeAll ident ids)),
      ExpiredShardGroups = spec_ExpiredShardGroups,
      DeletedShardGroups = spec_DeletedShardGroups,
      Now = (\<lambda>n. t)\<rparr>"

text \<open>Collaborators that refuse every deletion.\<close>

definition always_busy :: "uint64 \<Rightarrow> uint64 list \<Rightarrow> string option \<times> uint64 list" where
  "always_busy ident ids = (Some ''disk busy'', ids)"

definition never_leader ::
  "string \<Rightarrow> string \<Rightarrow> uint64 \<Rightarrow> DatabaseInfo list \<Rightarrow> string option \<times> DatabaseInfo list" where
  "never_leader db rp ident m = (Some ''not leader'', m)"

definition group :: "uint64 \<Rightarrow> int \<Rightarrow> bool \<Rightarrow> uint64 list \<Rightarrow> ShardGroupInfo" where
  "group ident end_time deleted shard_ids =
     \<lparr>sg_ID = ident, sg_EndTime = end_time, sg_Deleted = deleted,
      sg_Shards = map (\<lambda>i. \<lparr>sh_ID = i\<rparr>) shard_ids\<rparr>"

text \<open>
  Two databases at hour 30. In \<open>mydb\<close>, policy \<open>autogen\<close> (24 hours) has group 1, which
  ended at hour 0, and group 3, which ends at hour 50; policy \<open>weekly\<close> (168 hours) has
  group 2, marked deleted, with the shards 10 and 11. In \<open>otherdb\<close>, policy \<open>forever\<close>
  has group 4, marked deleted, which lists shard 10 again. The store holds the shards 10, 11
  and 12.
\<close>

definition mydb :: DatabaseInfo where
  "mydb = \<lparr>db_Name = ''mydb'', db_RetentionPolicies =
     [\<lparr>rp_Name = ''autogen'', rp_Duration = 24, rp_ShardGroups =
        [group 1 0 False [7], group 3 50 False [12]]\<rparr>,
      \<lparr>rp_Name = ''weekly'', rp_Duration = 168, rp_ShardGroups =
        [group 2 0 True [10, 11]]\<rparr>]\<rparr>"

definition otherdb :: DatabaseInfo where
  "otherdb = \<lparr>db_Name = ''otherdb'', db_RetentionPolicies =
     [\<lparr>rp_Name = ''forever'', rp_Duration = 1000, rp_ShardGroups =
        [group 4 0 True [10]]\<rparr>]\<rparr>"

definition start :: "(DatabaseInfo list, uint64 list) world" where
  "start = \<lparr>w_meta = [mydb, otherdb], w_store = [10, 11, 12], w_reads = 0, w_calls = [],
     w_log = []\<rparr>"

text \<open>Which collaborator an invocation goes to, and whether it is a deletion.\<close>

fun on_store :: "invocation \<Rightarrow> bool" where
  "on_store CallShardIDs = True"
| "on_store (CallDeleteShard _) = True"
| "on_store _ = False"

fun is_DeleteShardGroup :: "invocation \<Rightarrow> bool" where
  "is_DeleteShardGroup (CallDeleteShardGroup _ _ _) = True"
| "is_DeleteShardGroup _ = False"

section \<open>Series identity of result rows (models/rows.go)\<close>

text \<open>
  A Go map is a partial function; \<^verbatim>\<open>for k := range m\<close> visits the keys of \<open>m\<close> once each,
  in an order the runtime chooses. The order is an argument of every function that ranges
  over a map, and \<open>range_order m ks\<close> says that \<open>ks\<close> is an order the runtime may choose
  for \<open>m\<close>. Strings are byte strings and compare as Go compares them: byte by byte, a proper
  prefix first.
\<close>

definition range_order :: "('k \<rightharpoonup> 'v) \<Rightarrow> 'k list \<Rightarrow> bool" where
  "range_order m ks \<longleftrightarrow> distinct ks \<and> set ks = dom m"

text \<open>\<^verbatim>\<open>m[k]\<close> for a map of strings: the zero value \<^verbatim>\<open>""\<close> where the key is missing.\<close>

definition index_or_empty :: "(string \<rightharpoonup> string) \<Rightarrow> string \<Rightarrow> string" where
  "index_or_empty m k = (case m k of None \<Rightarrow> [] | Some v \<Rightarrow> v)"

record 'v Row =
  row_Name :: string
  row_Tags :: "string \<rightharpoonup> string"
  row_Columns :: "string list"
  row_Values :: "'v list list"
  row_Partial :: bool

text \<open>
  \<^verbatim>\<open>NewInlineFNV64a\<close>, its \<^verbatim>\<open>Write\<close> and its \<^verbatim>\<open>Sum64\<close> are defined in another file of
  package models, which is not among the sources: the hash is a parameter, with \<open>'h\<close> the
  state of the hasher.
\<close>

record 'h Hasher =
  NewInlineFNV64a :: 'h
  Write :: "string \<Rightarrow> 'h \<Rightarrow> 'h"
  Sum64 :: "'h \<Rightarrow> uint64"

text \<open>
  \<^verbatim>\<open>
  func (z *Row) tagsKeys() []string {
    a := make([]string, 0, len(z.Tags))
    for k := range z.Tags { a = append(a, k) }
    sort.Strings(a)
    return a
  }
  \<close>
\<close>

definition tagsKeys :: "string list \<Rightarrow> string list" where
  "tagsKeys ks = sort (fold (\<lambda>k a. a @ [k]) ks [])"

text \<open>
  \<^verbatim>\<open>
  func (z *Row) tagsHash() uint64 {
    h := NewInlineFNV64a()
    keys := z.tagsKeys()
    for _, k := range keys {
      h.Write([]byte(k))
      h.Write([]byte(z.Tags[k]))
    }
    return h.Sum64()
  }
  \<close>
\<close>

definition tagsHash :: "'h Hasher \<Rightarrow> string list \<Rightarrow> 'v Row \<Rightarrow> uint64" where
  "tagsHash H ks z =
     Sum64 H
       (fold (\<lambda>k h. Write H (index_or_empty (row_Tags z) k) (Write H k h)) (tagsKeys ks)
          (NewInlineFNV64a H))"

text \<open>
  \<^verbatim>\<open>
  func (z *Row) SameSeries(o *Row) bool {
    return z.tagsHash() == o.tagsHash() && z.Name == o.Name
  }
  \<close>
  \<open>y\<close> is the row \<^verbatim>\<open>o\<close>; \<open>kz\<close> is the order in which this call ranges over
  \<^verbatim>\<open>z.Tags\<close>, \<open>ky\<close> the order in which it ranges over \<^verbatim>\<open>o.Tags\<close>.
\<close>

definition SameSeries :: "'h Hasher \<Rightarrow> string list \<Rightarrow> string list \<Rightarrow> 'v Row \<Rightarrow> 'v Row \<Rightarrow> bool" where
  "SameSeries H kz ky z y \<longleftrightarrow> tagsHash H kz z = tagsHash H ky y \<and> row_Name z = row_Name y"

text \<open>
  A hasher to run the functions on: FNV-1a over 64 bits, the hash that the name
  \<^verbatim>\<open>InlineFNV64a\<close> refers to (offset basis 14695981039346656037, prime 1099511628211;
  each byte is xor-ed into the hash, which is then multiplied by the prime).
\<close>

definition fnv64a :: "uint64 Hasher" where
  "fnv64a =
     \<lparr>NewInlineFNV64a = 14695981039346656037,
      Write = (\<lambda>data h. fold (\<lambda>c hash. (hash XOR of_char c) * 1099511628211) data h),
      Sum64 = (\<lambda>h. h)\<rparr>"

definition cpu_row :: "string \<Rightarrow> nat Row" where
  "cpu_row name =
     \<lparr>row_Name = name, row_Tags = [''host'' \<mapsto> ''a'', ''region'' \<mapsto> ''west''],
      row_Columns = [''time'', ''value''], row_Values = [], row_Partial = False\<rparr>"

section \<open>The /debug/vars handler (debug.Mux)\<close>

text \<open>
  \<^verbatim>\<open>monitor.Statistic\<close> is declared in package monitor; the handler reads its \<^verbatim>\<open>Name\<close>
  and its \<^verbatim>\<open>Tags\<close> and hands the whole value to \<^verbatim>\<open>json.Marshal\<close>. \<open>'v\<close> is whatever else
  a statistic carries.
\<close>

record 'v Statistic =
  stat_Name :: string
  stat_Tags :: "string \<rightharpoonup> string"
  stat_Values :: 'v

text \<open>
  \<^verbatim>\<open>
  buf := bytes.NewBufferString(s.Name)
  if path, ok := s.Tags["path"]; ok {
    fmt.Fprintf(buf, ":%s", path)
    if id, ok := s.Tags["id"]; ok { fmt.Fprintf(buf, ":%s", id) }
  } else if bind, ok := s.Tags["bind"]; ok {
    if proto, ok := s.Tags["proto"]; ok { fmt.Fprintf(buf, ":%s", proto) }
    fmt.Fprintf(buf, ":%s", bind)
  } else if database, ok := s.Tags["database"]; ok {
    fmt.Fprintf(buf, ":%s", database)
    if rp, ok := s.Tags["retention_policy"]; ok {
      fmt.Fprintf(buf, ":%s", rp)
      if name, ok := s.Tags["name"]; ok { fmt.Fprintf(buf, ":%s", name) }
      if dest, ok := s.Tags["destination"]; ok { fmt.Fprintf(buf, ":%s", dest) }
    }
  }
  key := buf.String()
  \<close>
\<close>

definition colon_tag :: "(string \<rightharpoonup> string) \<Rightarrow> string \<Rightarrow> string" where
  "colon_tag tags k = (case tags k of None \<Rightarrow> [] | Some v \<Rightarrow> '':'' @ v)"

definition stat_key :: "'v Statistic \<Rightarrow> string" where
  "stat_key s =
     stat_Name s @
       (case stat_Tags s ''path'' of
          Some path \<Rightarrow> '':'' @ path @ colon_tag (stat_Tags s) ''id''
        | None \<Rightarrow>
            (case stat_Tags s ''bind'' of
               Some bind \<Rightarrow> colon_tag (stat_Tags s) ''proto'' @ '':'' @ bind
             | None \<Rightarrow>
                 (case stat_Tags s ''database'' of
                    Some database \<Rightarrow>
                      '':'' @ database @
                        (case stat_Tags s ''retention_policy'' of
                           Some rp \<Rightarrow>
                             '':'' @ rp @ colon_tag (stat_Tags s) ''name'' @
                               colon_tag (stat_Tags s) ''destination''
                         | None \<Rightarrow> [])
                  | None \<Rightarrow> [])))"

text \<open>
  \<^verbatim>\<open>
  statMap := make(map[string]*monitor.Statistic)
  for _, s := range stats { ...; statMap[key] = s }
  \<close>
\<close>

definition build_statMap :: "'v Statistic list \<Rightarrow> (string \<rightharpoonup> 'v Statistic)" where
  "build_statMap stats = fold (\<lambda>s m. m(stat_key s \<mapsto> s)) stats Map.empty"

text \<open>
  What the handler does to its \<^verbatim>\<open>http.ResponseWriter\<close>: the header fields it sets, the
  status it writes (none written is 200) and the writes to the body, one entry for each
  call. \<open>Fprintf_q key\<close> is \<^verbatim>\<open>fmt.Fprintf(w, "%q: ", key)\<close>; \<open>Write_error msg\<close> is the JSON
  object \<^verbatim>\<open>{"error": msg}\<close> that \<^verbatim>\<open>ServeError\<close> marshals and writes.
\<close>

datatype body_write =
  Fprintln string
  | Fprintf_q string
  | Write_bytes string
  | Write_error string

record response =
  resp_header :: "(string \<times> string) list"
  resp_status :: "nat option"
  resp_body :: "body_write list"

text \<open>
  \<^verbatim>\<open>
  func ServeError(w http.ResponseWriter, errMsg string, code int) {
    w.Header().Add("Content-Type", "application/json")
    w.WriteHeader(code)
    var response struct { Err string `json:"error"` }
    response.Err = errMsg
    b, _ := json.Marshal(response)
    w.Write(b)
  }
  \<close>
\<close>

definition ServeError :: "string \<Rightarrow> nat \<Rightarrow> response \<Rightarrow> response" where
  "ServeError errMsg code w =
     w\<lparr>resp_header := resp_header w @ [(''Content-Type'', ''application/json'')],
       resp_status := Some code,
       resp_body := resp_body w @ [Write_error errMsg]\<rparr>"

text \<open>
  \<^verbatim>\<open>
  for idx, key := range keys {
    out, err := json.Marshal(statMap[key])
    if err != nil { continue }
    if idx != 0 { fmt.Fprintln(w, ",") }
    fmt.Fprintf(w, "%q: ", key)
    w.Write(bytes.TrimSpace(out))
  }
  \<close>
  \<^verbatim>\<open>json.Marshal\<close> on a \<^verbatim>\<open>*monitor.Statistic\<close> (\<open>None\<close> is the nil pointer that a missing
  key would give) and \<^verbatim>\<open>bytes.TrimSpace\<close> are parameters; \<open>Marshal\<close> returns \<open>None\<close> for
  an error.
\<close>

definition emit_stat ::
  "('v Statistic option \<Rightarrow> string option) \<Rightarrow> (string \<Rightarrow> string) \<Rightarrow>
     (string \<rightharpoonup> 'v Statistic) \<Rightarrow> nat \<times> string \<Rightarrow> body_write list \<Rightarrow> body_write list" where
  "emit_stat Marshal TrimSpace statMap ik body =
     (case Marshal (statMap (snd ik)) of
        None \<Rightarrow> body
      | Some out \<Rightarrow>
          body @ (if fst ik \<noteq> 0 then [Fprintln '',''] else []) @
            [Fprintf_q (snd ik), Write_bytes (TrimSpace out)])"

text \<open>The writes of one iteration of that loop.\<close>

definition stat_writes ::
  "('v Statistic option \<Rightarrow> string option) \<Rightarrow> (string \<Rightarrow> string) \<Rightarrow>
     (string \<rightharpoonup> 'v Statistic) \<Rightarrow> nat \<times> string \<Rightarrow> body_write list" where
  "stat_writes Marshal TrimSpace statMap ik = emit_stat Marshal TrimSpace statMap ik []"

text \<open>
  \<^verbatim>\<open>
  stats, err := m.monitor.Statistics(nil)
  if err != nil { ServeError(w, err.Error(), http.StatusInternalServerError); return }
  ...
  keys := make([]string, 0, len(statMap))
  for k := range statMap { keys = append(keys, k) }
  sort.Strings(keys)
  w.Header().Set("Content-Type", "application/json; charset=utf-8")
  fmt.Fprintln(w, "{")
  for idx, key := range keys { ... }
  fmt.Fprintln(w, "\n}")
  \<close>
  \<open>statistics\<close> is what \<^verbatim>\<open>m.monitor.Statistics(nil)\<close> returned (\<open>Inl\<close> the error), \<open>ks\<close>
  the order in which the handler ranges over \<^verbatim>\<open>statMap\<close>; the response writer starts
  empty.
\<close>

definition new_response :: response where
  "new_response = \<lparr>resp_header = [], resp_status = None, resp_body = []\<rparr>"

definition serveExpvar ::
  "('v Statistic option \<Rightarrow> string option) \<Rightarrow> (string \<Rightarrow> string) \<Rightarrow>
     string + 'v Statistic list \<Rightarrow> string list \<Rightarrow> response" where
  "serveExpvar Marshal TrimSpace statistics ks =
     (case statistics of
        Inl err \<Rightarrow> ServeError err 500 new_response
      | Inr stats \<Rightarrow>
          (let statMap = build_statMap stats;
               keys = sort (fold (\<lambda>k a. a @ [k]) ks []);
               w1 = new_response\<lparr>resp_header := [(''Content-Type'', ''application/json; charset=utf-8'')]\<rparr>;
               w2 = w1\<lparr>resp_body := resp_body w1 @ [Fprintln ''{'']\<rparr>;
               w3 = w2\<lparr>resp_body :=
                      fold (emit_stat Marshal TrimSpace statMap) (enumerate 0 keys) (resp_body w2)\<rparr>
           in w3\<lparr>resp_body := resp_body w3 @ [Fprintln [CHR 0x0A, CHR ''}'']]\<rparr>))"

text \<open>
  Reading a body back: the keys it prints, each with the bytes written right after it, in
  the order of the writes.
\<close>

fun emitted :: "body_write list \<Rightarrow> (string \<times> string) list" where
  "emitted (Fprintf_q k # Write_bytes j # rest) = (k, j) # emitted rest"
| "emitted (_ # rest) = emitted rest"
| "emitted [] = []"

text \<open>The statistic that was stored last under a key, in the words of the claim.\<close>

definition last_with_key :: "'v Statistic list \<Rightarrow> string \<Rightarrow> 'v Statistic option" where
  "last_with_key stats k =
     (let same = filter (\<lambda>s. stat_key s = k) stats
      in if same = [] then None else Some (last same))"

text \<open>Three statistics, two of them with the key \<open>shard:/data/1:1\<close>.\<close>

definition stat :: "string \<Rightarrow> (string \<rightharpoonup> string) \<Rightarrow> nat \<Rightarrow> nat Statistic" where
  "stat name tags v = \<lparr>stat_Name = name, stat_Tags = tags, stat_Values = v\<rparr>"

definition three_stats :: "nat Statistic list" where
  "three_stats =
     [stat ''shard'' [''path'' \<mapsto> ''/data/1'', ''id'' \<mapsto> ''1''] 5,
      stat ''httpd'' [''bind'' \<mapsto> '':8086''] 6,
      stat ''shard'' [''path'' \<mapsto> ''/data/1'', ''id'' \<mapsto> ''1'', ''database'' \<mapsto> ''db''] 7]"

text \<open>A marshaller for the examples: the value in unary, between spaces.\<close>

definition unary_Marshal :: "nat Statistic option \<Rightarrow> string option" where
  "unary_Marshal p =
     (case p of None \<Rightarrow> Some ''null'' | Some s \<Rightarrow> Some ('' '' @ replicate (stat_Values s) CHR ''|'' @ '' ''))"

definition trim_spaces :: "string \<Rightarrow> string" where
  "trim_spaces bs = rev (dropWhile (\<lambda>c. c = CHR '' '') (rev (dropWhile (\<lambda>c. c = CHR '' '') bs)))"

section \<open>The goroutines of the service (Open, Close, the two loops, the debug handler)\<close>

text \<open>
  \<^verbatim>\<open>
  func NewService(c Config) *Service {
    return &Service{ ..., done: make(chan struct{}),
      forceDeleteShardGroups: make(chan struct{}), forceDeleteShards: make(chan struct{}) }
  }
  func (s *Service) Open() error {
    s.wg.Add(2)
    go s.serviceDeleteShardGroups()
    go s.serviceDeleteShards()
    return nil
  }
  func (s *Service) Close() error {
    close(s.done)
    s.wg.Wait()
    return nil
  }
  func (s *Service) serviceDeleteShardGroups() {
    defer s.wg.Done()
    ticker := time.NewTicker(s.checkInterval)
    defer ticker.Stop()
    for {
      select {
      case <-s.forceDeleteShardGroups: s.deleteShardGroups()
      case <-ticker.C:                 s.deleteShardGroups()
      case <-s.done:                   return
      }
    }
  }
  // AddDebugHandler, POST /debug/enforce_retention:
  s.forceDeleteShardGroups <- struct{}{}
  s.forceDeleteShards <- struct{}{}
  \<close>
  \<^verbatim>\<open>serviceDeleteShards\<close> is the same loop over \<^verbatim>\<open>forceDeleteShards\<close> and \<^verbatim>\<open>deleteShards\<close>.

  The goroutines run interleaved, one step at a time. The state holds what they share and
  where each of them stands: whether \<^verbatim>\<open>s.done\<close> is closed, the counter of \<^verbatim>\<open>s.wg\<close>, the
  program point of each loop, the number of handler goroutines blocked in the send on each
  of the two unbuffered force channels, the number of handlers that have returned, the
  number of callers of \<^verbatim>\<open>Close\<close> blocked in \<^verbatim>\<open>s.wg.Wait()\<close> and of those that have
  returned, and whether the process has panicked.
\<close>

datatype reaper = ShardGroups | Shards

datatype loop_pc = NotStarted | Selecting | Sweeping | Exited

record runtime =
  done_closed :: bool
  wg :: int
  loop :: "reaper \<Rightarrow> loop_pc"
  sending :: "reaper \<Rightarrow> nat"
  handled :: nat
  close_waiting :: nat
  close_returned :: nat
  panicked :: bool

definition NewService :: runtime where
  "NewService =
     \<lparr>done_closed = False, wg = 0, loop = (\<lambda>r. NotStarted), sending = (\<lambda>r. 0), handled = 0,
      close_waiting = 0, close_returned = 0, panicked = False\<rparr>"

definition Open :: "runtime \<Rightarrow> runtime" where
  "Open s = s\<lparr>wg := wg s + 2, loop := (\<lambda>r. Selecting)\<rparr>"

text \<open>
  The steps. \<open>Post\<close>: a request arrives and its handler reaches the first send.
  \<open>Force r\<close>: a blocked send on the force channel of \<open>r\<close> meets the receive in the
  \<^verbatim>\<open>select\<close> of loop \<open>r\<close>; the loop calls its sweep and the handler goes on (to the second
  send, or to its end). \<open>Tick r\<close>: the loop receives from its ticker and calls its sweep.
  \<open>Invoke r\<close>: the running sweep invokes a method of the meta client or of the store.
  \<open>Finish r\<close>: the sweep returns and the loop is back at its \<^verbatim>\<open>select\<close>. \<open>Shutdown r\<close>:
  the loop receives from the closed \<^verbatim>\<open>s.done\<close> and returns, which runs the deferred
  \<^verbatim>\<open>s.wg.Done()\<close> (a panic if the counter would become negative). \<open>CallClose\<close>: a caller
  of \<^verbatim>\<open>Close\<close> executes \<^verbatim>\<open>close(s.done)\<close>, which panics on a closed channel, and then
  waits. \<open>ReturnClose\<close>: \<^verbatim>\<open>s.wg.Wait()\<close> returns, the counter being zero.

  A \<^verbatim>\<open>select\<close> may take any case that is ready; when the ticker fires is left open. A step
  that cannot be taken in a state is \<open>None\<close>. An unrecovered panic ends the process: no
  step follows it.
\<close>

datatype event =
  Post
  | Force reaper
  | Tick reaper
  | Invoke reaper
  | Finish reaper
  | Shutdown reaper
  | CallClose
  | ReturnClose

fun handoff :: "reaper \<Rightarrow> runtime \<Rightarrow> runtime" where
  "handoff ShardGroups s =
     s\<lparr>sending := (sending s)(ShardGroups := sending s ShardGroups - 1,
          Shards := Suc (sending s Shards))\<rparr>"
| "handoff Shards s =
     s\<lparr>sending := (sending s)(Shards := sending s Shards - 1), handled := Suc (handled s)\<rparr>"

fun perform :: "event \<Rightarrow> runtime \<Rightarrow> runtime option" where
  "perform Post s =
     Some (s\<lparr>sending := (sending s)(ShardGroups := Suc (sending s ShardGroups))\<rparr>)"
| "perform (Force r) s =
     (if loop s r = Selecting \<and> 0 < sending s r
      then Some (handoff r (s\<lparr>loop := (loop s)(r := Sweeping)\<rparr>)) else None)"
| "perform (Tick r) s =
     (if loop s r = Selecting then Some (s\<lparr>loop := (loop s)(r := Sweeping)\<rparr>) else None)"
| "perform (Invoke r) s = (if loop s r = Sweeping then Some s else None)"
| "perform (Finish r) s =
     (if loop s r = Sweeping then Some (s\<lparr>loop := (loop s)(r := Selecting)\<rparr>) else None)"
| "perform (Shutdown r) s =
     (if loop s r = Selecting \<and> done_closed s
      then (if wg s \<le> 0 then Some (s\<lparr>panicked := True\<rparr>)
            else Some (s\<lparr>loop := (loop s)(r := Exited), wg := wg s - 1\<rparr>))
      else None)"
| "perform CallClose s =
     (if done_closed s then Some (s\<lparr>panicked := True\<rparr>)
      else Some (s\<lparr>done_closed := True, close_waiting := Suc (close_waiting s)\<rparr>))"
| "perform ReturnClose s =
     (if 0 < close_waiting s \<and> wg s = 0
      then Some (s\<lparr>close_waiting := close_waiting s - 1, close_returned := Suc (close_returned s)\<rparr>)
      else None)"

definition step :: "event \<Rightarrow> runtime \<Rightarrow> runtime option" where
  "step e s = (if panicked s then None else perform e s)"

fun run :: "event list \<Rightarrow> runtime \<Rightarrow> runtime option" where
  "run [] s = Some s"
| "run (e # es) s = (case step e s of None \<Rightarrow> None | Some s' \<Rightarrow> run es s')"

text \<open>The loop goroutine that a step belongs to, if any.\<close>

fun moves :: "event \<Rightarrow> reaper option" where
  "moves (Force r) = Some r"
| "moves (Tick r) = Some r"
| "moves (Invoke r) = Some r"
| "moves (Finish r) = Some r"
| "moves (Shutdown r) = Some r"
| "moves _ = None"

text \<open>
  What the counter of the wait group stands for: a loop that has been started and has not
  returned counts one.
\<close>

fun running :: "loop_pc \<Rightarrow> int" where
  "running Selecting = 1"
| "running Sweeping = 1"
| "running _ = 0"

definition accounted :: "runtime \<Rightarrow> bool" where
  "accounted s \<longleftrightarrow>
     wg s = running (loop s ShardGroups) + running (loop s Shards) \<and>
     loop s ShardGroups \<noteq> NotStarted \<and> loop s Shards \<noteq> NotStarted \<and>
     (0 < close_returned s \<longrightarrow> wg s = 0) \<and>
     (0 < close_returned s \<or> 0 < close_waiting s \<longrightarrow> done_closed s)"

section \<open>Verification of the sweeps\<close>

subsection \<open>The orphan map\<close>

lemma fold_nested: "fold (\<lambda>x. fold f (g x)) xs = fold f (concat (map g xs))"
  by (induction xs) simp_all

lemma fold_put_entry: "fold put_entry es m = m ++ map_of (rev es)"
  by (induction es arbitrary: m) (simp_all add: put_entry_def map_add_upd_left flip: fun_upd_def)

lemma fold_shards_put:
  "fold (\<lambda>sh m. m(sh_ID sh \<mapsto> v)) shs = fold put_entry (map (\<lambda>sh. (sh_ID sh, v)) shs)"
proof -
  have "(\<lambda>sh m. m(sh_ID sh \<mapsto> v)) = put_entry \<circ> (\<lambda>sh. (sh_ID sh, v))"
    by (simp add: fun_eq_iff put_entry_def)
  then have "fold (\<lambda>sh m. m(sh_ID sh \<mapsto> v)) shs = fold (put_entry \<circ> (\<lambda>sh. (sh_ID sh, v))) shs"
    by (rule arg_cong)
  then show ?thesis
    by (simp only: fold_map)
qed

lemma collect_deleted_entries:
  "collect_deleted s dbs m = m ++ map_of (rev (orphan_entries s dbs))"
  unfolding collect_deleted_def orphan_entries_def
  by (simp only: fold_shards_put fold_nested fold_put_entry)

lemma orphan_candidate_entries:
  "orphan_candidate s dbs i \<longleftrightarrow> i \<in> fst ` set (orphan_entries s dbs)"
  unfolding orphan_candidate_def orphan_entries_def
  by (auto simp: image_iff)

lemma collect_deleted_defined:
  "(\<exists>di. collect_deleted s dbs Map.empty i = Some di) \<longleftrightarrow> orphan_candidate s dbs i"
proof -
  have "dom (collect_deleted s dbs Map.empty) = fst ` set (orphan_entries s dbs)"
    by (simp add: collect_deleted_entries dom_map_of_conv_image_fst)
  then show ?thesis
    by (auto simp: orphan_candidate_entries dom_def)
qed

subsection \<open>What deleteShards invokes\<close>

lemma reap_shard_calls:
  "w_calls (reap_shard s m i w) = w_calls w @ (if m i = None then [] else [CallDeleteShard i])"
  by (auto simp: reap_shard_def invoke_def logger_Print_def split: option.splits prod.splits)

lemma fold_reap_shard_calls:
  "w_calls (fold (reap_shard s m) ids w) =
     w_calls w @ map CallDeleteShard (filter (\<lambda>i. m i \<noteq> None) ids)"
  by (induction ids arbitrary: w) (auto simp: reap_shard_calls)

lemma deleteShards_calls:
  "calls_of (deleteShards s) w =
     CallDatabases # CallShardIDs #
       map CallDeleteShard
         (filter (orphan_candidate s (Databases s (w_meta w))) (ShardIDs s (w_store w)))"
  by (simp add: calls_of_def deleteShards_def Let_def fold_reap_shard_calls invoke_def
      logger_Print_def collect_deleted_defined)

text \<open>
  C1 (orphan correctness of the shard sweep). In a sweep of \<^verbatim>\<open>deleteShards\<close>, for every
  shard ID \<open>S\<close> that \<^verbatim>\<open>ShardIDs()\<close> returns, \<^verbatim>\<open>DeleteShard(S)\<close> is invoked if and only if
  \<open>S\<close> is a shard of some shard group that the metadata reports as deleted; and whatever
  is passed to \<^verbatim>\<open>DeleteShard\<close> is such an ID, returned by \<^verbatim>\<open>ShardIDs()\<close>.
\<close>

theorem deleteShards_orphan_correctness:
  "(\<forall>S \<in> set (ShardIDs s (w_store w)).
      CallDeleteShard S \<in> set (calls_of (deleteShards s) w) \<longleftrightarrow>
      orphan_candidate s (Databases s (w_meta w)) S) \<and>
   (\<forall>S. CallDeleteShard S \<in> set (calls_of (deleteShards s) w) \<longrightarrow>
      S \<in> set (ShardIDs s (w_store w)) \<and> orphan_candidate s (Databases s (w_meta w)) S)"
  by (auto simp: deleteShards_calls)

theorem deleteShards_orphan_correctness_witness:
  "10 \<in> set (ShardIDs (memory_service [] [11] 30) (w_store start)) \<and>
   orphan_candidate (memory_service [] [11] 30)
     (Databases (memory_service [] [11] 30) (w_meta start)) 10 \<and>
   CallDeleteShard 10 \<in> set (calls_of (deleteShards (memory_service [] [11] 30)) start) \<and>
   12 \<in> set (ShardIDs (memory_service [] [11] 30) (w_store start)) \<and>
   \<not> orphan_candidate (memory_service [] [11] 30)
     (Databases (memory_service [] [11] 30) (w_meta start)) 12 \<and>
   CallDeleteShard 12 \<notin> set (calls_of (deleteShards (memory_service [] [11] 30)) start)"
proof -
  have a: "10 \<in> set (ShardIDs (memory_service [] [11] 30) (w_store start))"
    and b: "12 \<in> set (ShardIDs (memory_service [] [11] 30) (w_store start))"
    by code_simp+
  have c: "orphan_candidate (memory_service [] [11] 30)
      (Databases (memory_service [] [11] 30) (w_meta start)) 10"
    and d: "\<not> orphan_candidate (memory_service [] [11] 30)
      (Databases (memory_service [] [11] 30) (w_meta start)) 12"
    by code_simp+
  show ?thesis
    using a b c d deleteShards_orphan_correctness [of "memory_service [] [11] 30" start]
    by blast
qed

subsection \<open>What deleteShardGroups invokes\<close>

lemma reap_shard_group_calls:
  "w_calls (reap_shard_group s d r g w) =
     w_calls w @ [CallDeleteShardGroup (db_Name d) (rp_Name r) (sg_ID g)]"
  by (auto simp: reap_shard_group_def invoke_def logger_Print_def split: option.splits prod.splits)

lemma reap_shard_group_reads: "w_reads (reap_shard_group s d r g w) = w_reads w"
  by (auto simp: reap_shard_group_def invoke_def logger_Print_def split: option.splits prod.splits)

lemma fold_reap_shard_group_calls:
  "w_calls (fold (reap_shard_group s d r) gs w) =
     w_calls w @ map (\<lambda>g. CallDeleteShardGroup (db_Name d) (rp_Name r) (sg_ID g)) gs"
  by (induction gs arbitrary: w) (simp_all add: reap_shard_group_calls)

lemma fold_reap_shard_group_reads: "w_reads (fold (reap_shard_group s d r) gs w) = w_reads w"
  by (induction gs arbitrary: w) (simp_all add: reap_shard_group_reads)

lemma sweep_policy_calls:
  "w_calls (sweep_policy s d r w) = w_calls w @ policy_batch s (w_reads w) (d, r)"
  by (simp add: sweep_policy_def Let_def fold_reap_shard_group_calls policy_batch_def)

lemma sweep_policy_reads: "w_reads (sweep_policy s d r w) = Suc (w_reads w)"
  by (simp add: sweep_policy_def Let_def fold_reap_shard_group_reads)

lemma fold_policies:
  "fold (\<lambda>d. fold (sweep_policy s d) (db_RetentionPolicies d)) dbs =
     fold (\<lambda>p. sweep_policy s (fst p) (snd p)) (policies dbs)"
proof -
  have "(\<lambda>d. fold (sweep_policy s d) (db_RetentionPolicies d)) =
      (\<lambda>d. fold (\<lambda>p. sweep_policy s (fst p) (snd p)) (map (Pair d) (db_RetentionPolicies d)))"
    by (simp add: fold_map o_def)
  then show ?thesis
    by (simp add: policies_def fold_nested)
qed

lemma fold_sweep_policy_reads:
  "w_reads (fold (\<lambda>p. sweep_policy s (fst p) (snd p)) ps w) = w_reads w + length ps"
  by (induction ps arbitrary: w) (simp_all add: sweep_policy_reads)

lemma fold_sweep_policy_calls:
  "w_calls (fold (\<lambda>p. sweep_policy s (fst p) (snd p)) ps w) =
     w_calls w @ concat (map (\<lambda>k. policy_batch s (w_reads w + k) (ps ! k)) [0..<length ps])"
proof (induction ps arbitrary: w)
  case Nil
  show ?case by simp
next
  case (Cons p ps)
  have "[0..<length (p # ps)] = 0 # map Suc [0..<length ps]"
    by (simp add: upt_conv_Cons map_Suc_upt del: upt_Suc)
  then show ?case
    by (simp add: Cons.IH sweep_policy_calls sweep_policy_reads o_def del: upt_Suc)
qed

lemma deleteShardGroups_calls:
  "calls_of (deleteShardGroups s) w =
     CallDatabases #
       concat (map (\<lambda>k. policy_batch s (w_reads w + k) (policies (Databases s (w_meta w)) ! k))
         [0..<length (policies (Databases s (w_meta w)))])"
  by (simp add: calls_of_def deleteShardGroups_def Let_def fold_policies fold_sweep_policy_calls
      invoke_def)

lemma count_list_concat: "count_list (concat xss) x = sum_list (map (\<lambda>xs. count_list xs x) xss)"
  by (induction xss) simp_all

lemma count_list_map_inj:
  "inj f \<Longrightarrow> count_list (map f xs) (f x) = count_list xs x"
  by (induction xs) (auto dest: injD)

lemma count_list_distinct:
  "distinct xs \<Longrightarrow> count_list xs x = (if x \<in> set xs then 1 else 0)"
  by (induction xs) auto

lemma sum_list_single:
  "k < n \<Longrightarrow> (\<Sum>j\<leftarrow>[0..<n]. if j = k then (a::nat) else 0) = a"
  by (simp add: sum_list_distinct_conv_sum_set)

lemma policy_batch_count_same:
  assumes "distinct (map sg_ID (ExpiredShardGroups s (snd p) (Now s n)))"
  shows "count_list (policy_batch s n p) (CallDeleteShardGroup (db_Name (fst p)) (rp_Name (snd p)) i) =
     (if i \<in> sg_ID ` set (ExpiredShardGroups s (snd p) (Now s n)) then 1 else 0)"
proof -
  let ?f = "CallDeleteShardGroup (db_Name (fst p)) (rp_Name (snd p))"
  let ?ids = "map sg_ID (ExpiredShardGroups s (snd p) (Now s n))"
  have "policy_batch s n p = map ?f ?ids"
    by (simp add: policy_batch_def o_def)
  moreover have "count_list (map ?f ?ids) (?f i) = count_list ?ids i"
    by (rule count_list_map_inj) (simp add: inj_def)
  moreover have "count_list ?ids i = (if i \<in> set ?ids then 1 else 0)"
    using assms by (rule count_list_distinct)
  ultimately show ?thesis
    by (simp only: set_map)
qed

lemma policy_batch_count_other:
  assumes "(db_Name (fst q), rp_Name (snd q)) \<noteq> (dn, rn)"
  shows "count_list (policy_batch s n q) (CallDeleteShardGroup dn rn i) = 0"
  using assms by (auto simp: policy_batch_def count_list_0_iff)

text \<open>
  C2 (expiry correctness of the shard-group sweep). Database names together with policy
  names identify the policies, and group IDs identify the expired groups of a policy. Then,
  for the policy \<open>P\<close> of database \<open>D\<close> that the sweep reaches as its \<open>k\<close>-th, and for every
  group ID \<open>G\<close>:
  \<^verbatim>\<open>DeleteShardGroup(D.Name, P.Name, G)\<close> is invoked exactly once in the sweep if \<open>G\<close> is
  the ID of a group in \<open>P\<close>'s expired set at the time the sweep reads for \<open>P\<close>, and not at
  all otherwise.
\<close>

theorem deleteShardGroups_expiry:
  assumes names: "distinct (map (\<lambda>p. (db_Name (fst p), rp_Name (snd p)))
        (policies (Databases s (w_meta w))))"
    and k: "k < length (policies (Databases s (w_meta w)))"
    and p: "policies (Databases s (w_meta w)) ! k = (D, P)"
    and ids: "distinct (map sg_ID (ExpiredShardGroups s P (Now s (w_reads w + k))))"
  shows "count_list (calls_of (deleteShardGroups s) w)
       (CallDeleteShardGroup (db_Name D) (rp_Name P) G) =
     (if G \<in> sg_ID ` set (ExpiredShardGroups s P (Now s (w_reads w + k))) then 1 else 0)"
proof -
  define ps where "ps = policies (Databases s (w_meta w))"
  define c where "c = CallDeleteShardGroup (db_Name D) (rp_Name P) G"
  have other: "count_list (policy_batch s (w_reads w + j) (ps ! j)) c = 0"
    if "j < length ps" "j \<noteq> k" for j
  proof -
    have "map (\<lambda>p. (db_Name (fst p), rp_Name (snd p))) ps ! j \<noteq>
        map (\<lambda>p. (db_Name (fst p), rp_Name (snd p))) ps ! k"
      using names that k by (simp add: ps_def nth_eq_iff_index_eq del: nth_map)
    then have "(db_Name (fst (ps ! j)), rp_Name (snd (ps ! j))) \<noteq> (db_Name D, rp_Name P)"
      using that k p by (simp add: ps_def)
    then show ?thesis
      unfolding c_def by (rule policy_batch_count_other)
  qed
  have same: "count_list (policy_batch s (w_reads w + k) (ps ! k)) c =
      (if G \<in> sg_ID ` set (ExpiredShardGroups s P (Now s (w_reads w + k))) then 1 else 0)"
  proof -
    have "distinct (map sg_ID (ExpiredShardGroups s (snd (ps ! k)) (Now s (w_reads w + k))))"
      using ids p by (simp add: ps_def)
    from policy_batch_count_same [OF this, of G] show ?thesis
      using p by (simp add: ps_def c_def)
  qed
  have "count_list (calls_of (deleteShardGroups s) w) c =
      (\<Sum>j\<leftarrow>[0..<length ps]. count_list (policy_batch s (w_reads w + j) (ps ! j)) c)"
    by (simp add: deleteShardGroups_calls count_list_concat ps_def c_def o_def)
  also have "\<dots> = (\<Sum>j\<leftarrow>[0..<length ps].
      if j = k then count_list (policy_batch s (w_reads w + k) (ps ! k)) c else 0)"
    by (rule arg_cong [where f = sum_list], rule map_cong) (auto simp: other)
  also have "\<dots> = count_list (policy_batch s (w_reads w + k) (ps ! k)) c"
    using k unfolding ps_def by (rule sum_list_single)
  finally show ?thesis
    using same by (simp only: c_def)
qed

theorem deleteShardGroups_expiry_witness:
  "count_list (calls_of (deleteShardGroups (memory_service [] [] 30)) start)
     (CallDeleteShardGroup ''mydb'' ''autogen'' 1) = 1 \<and>
   1 \<in> sg_ID ` set (spec_ExpiredShardGroups (hd (db_RetentionPolicies mydb)) 30) \<and>
   count_list (calls_of (deleteShardGroups (memory_service [] [] 30)) start)
     (CallDeleteShardGroup ''mydb'' ''autogen'' 3) = 0 \<and>
   3 \<notin> sg_ID ` set (spec_ExpiredShardGroups (hd (db_RetentionPolicies mydb)) 30)"
proof -
  let ?s = "memory_service [] [] 30"
  let ?P = "hd (db_RetentionPolicies mydb)"
  have names: "distinct (map (\<lambda>p. (db_Name (fst p), rp_Name (snd p)))
      (policies (Databases ?s (w_meta start))))"
    by code_simp
  have ids: "distinct (map sg_ID (ExpiredShardGroups ?s ?P (Now ?s (w_reads start + 0))))"
    by code_simp
  have k: "0 < length (policies (Databases ?s (w_meta start)))"
    by code_simp
  have p: "policies (Databases ?s (w_meta start)) ! 0 = (mydb, ?P)"
    by code_simp
  have e: "ExpiredShardGroups ?s ?P (Now ?s (w_reads start + 0)) = spec_ExpiredShardGroups ?P 30"
    by (simp add: memory_service_def)
  have n: "db_Name mydb = ''mydb''" "rp_Name ?P = ''autogen''"
    by code_simp+
  have x: "1 \<in> sg_ID ` set (spec_ExpiredShardGroups ?P 30)"
    and y: "3 \<notin> sg_ID ` set (spec_ExpiredShardGroups ?P 30)"
    by code_simp+
  show ?thesis
    using deleteShardGroups_expiry [OF names k p ids, of 1]
      deleteShardGroups_expiry [OF names k p ids, of 3] x y
    by (simp only: e n if_True if_False simp_thms)
qed

subsection \<open>Failures of single deletions\<close>

lemma orphan_candidate_upd [simp]:
  "orphan_candidate (s\<lparr>DeleteShard := h\<rparr>) = orphan_candidate s"
  by (simp add: fun_eq_iff orphan_candidate_def)

lemma policy_batch_upd [simp]:
  "policy_batch (s\<lparr>DeleteShardGroup := f\<rparr>) = policy_batch s"
  by (simp add: fun_eq_iff policy_batch_def)

text \<open>
  C3 (non-aborting failure handling). Whatever \<^verbatim>\<open>DeleteShard\<close> and \<^verbatim>\<open>DeleteShardGroup\<close>
  return, for whichever items they fail: a sweep of \<^verbatim>\<open>deleteShards\<close> invokes
  \<^verbatim>\<open>DeleteShard\<close> for every orphan candidate that \<^verbatim>\<open>ShardIDs()\<close> lists, and a sweep of
  \<^verbatim>\<open>deleteShardGroups\<close> invokes \<^verbatim>\<open>DeleteShardGroup\<close> for every group in the expired set
  of every policy it reaches; and the sweep invokes the same collaborator methods with the
  same arguments in the same order as when the deletions behave in any other way. The
  sweeps return no error: a sweep is a total function from worlds to worlds, and a failure
  only adds a line to the log.
\<close>

theorem sweeps_do_not_abort:
  "(\<forall>S \<in> set (ShardIDs s (w_store w)).
      orphan_candidate s (Databases s (w_meta w)) S \<longrightarrow>
      CallDeleteShard S \<in> set (calls_of (deleteShards (s\<lparr>DeleteShard := h\<rparr>)) w)) \<and>
   (\<forall>k < length (policies (Databases s (w_meta w))).
      \<forall>g \<in> set (ExpiredShardGroups s (snd (policies (Databases s (w_meta w)) ! k))
                 (Now s (w_reads w + k))).
        CallDeleteShardGroup (db_Name (fst (policies (Databases s (w_meta w)) ! k)))
            (rp_Name (snd (policies (Databases s (w_meta w)) ! k))) (sg_ID g) \<in>
          set (calls_of (deleteShardGroups (s\<lparr>DeleteShardGroup := f\<rparr>)) w)) \<and>
   calls_of (deleteShardGroups (s\<lparr>DeleteShardGroup := f\<rparr>)) w = calls_of (deleteShardGroups s) w \<and>
   calls_of (deleteShards (s\<lparr>DeleteShard := h\<rparr>)) w = calls_of (deleteShards s) w"
proof -
  let ?ps = "policies (Databases s (w_meta w))"
  have shards: "CallDeleteShard S \<in> set (calls_of (deleteShards (s\<lparr>DeleteShard := h\<rparr>)) w)"
    if "S \<in> set (ShardIDs s (w_store w))" and "orphan_candidate s (Databases s (w_meta w)) S" for S
    using that by (simp add: deleteShards_calls)
  have groups: "CallDeleteShardGroup (db_Name (fst (?ps ! k))) (rp_Name (snd (?ps ! k))) (sg_ID g) \<in>
      set (calls_of (deleteShardGroups (s\<lparr>DeleteShardGroup := f\<rparr>)) w)"
    if k: "k < length ?ps" and g: "g \<in> set (ExpiredShardGroups s (snd (?ps ! k)) (Now s (w_reads w + k)))"
    for k g
  proof -
    have "CallDeleteShardGroup (db_Name (fst (?ps ! k))) (rp_Name (snd (?ps ! k))) (sg_ID g) \<in>
        set (policy_batch s (w_reads w + k) (?ps ! k))"
      using g by (simp add: policy_batch_def)
    moreover have "k \<in> set [0..<length ?ps]"
      using k by simp
    ultimately show ?thesis
      by (simp only: deleteShardGroups_calls policy_batch_upd) (auto simp del: policy_batch_upd)
  qed
  have same: "calls_of (deleteShardGroups (s\<lparr>DeleteShardGroup := f\<rparr>)) w = calls_of (deleteShardGroups s) w"
    "calls_of (deleteShards (s\<lparr>DeleteShard := h\<rparr>)) w = calls_of (deleteShards s) w"
    by (simp_all add: deleteShardGroups_calls deleteShards_calls)
  from shards groups same show ?thesis
    by blast
qed

theorem sweeps_do_not_abort_witness:
  "10 \<in> set (ShardIDs (memory_service [] [] 100) (w_store start)) \<and>
   11 \<in> set (ShardIDs (memory_service [] [] 100) (w_store start)) \<and>
   orphan_candidate (memory_service [] [] 100) (Databases (memory_service [] [] 100) (w_meta start)) 10 \<and>
   orphan_candidate (memory_service [] [] 100) (Databases (memory_service [] [] 100) (w_meta start)) 11 \<and>
   CallDeleteShard 10 \<in>
     set (calls_of (deleteShards ((memory_service [] [] 100)\<lparr>DeleteShard := always_busy\<rparr>)) start) \<and>
   CallDeleteShard 11 \<in>
     set (calls_of (deleteShards ((memory_service [] [] 100)\<lparr>DeleteShard := always_busy\<rparr>)) start) \<and>
   w_log (deleteShards ((memory_service [] [] 100)\<lparr>DeleteShard := always_busy\<rparr>) start) =
     [LogCommencing, LogShardFailed 10 ''otherdb'' ''forever'' ''disk busy'',
      LogShardFailed 11 ''mydb'' ''weekly'' ''disk busy''] \<and>
   map sg_ID (ExpiredShardGroups (memory_service [] [] 100)
     (snd (policies (Databases (memory_service [] [] 100) (w_meta start)) ! 0))
     (Now (memory_service [] [] 100) (w_reads start + 0))) = [1, 3] \<and>
   CallDeleteShardGroup ''mydb'' ''autogen'' 1 \<in>
     set (calls_of (deleteShardGroups ((memory_service [] [] 100)\<lparr>DeleteShardGroup := never_leader\<rparr>)) start) \<and>
   CallDeleteShardGroup ''mydb'' ''autogen'' 3 \<in>
     set (calls_of (deleteShardGroups ((memory_service [] [] 100)\<lparr>DeleteShardGroup := never_leader\<rparr>)) start) \<and>
   w_log (deleteShardGroups ((memory_service [] [] 100)\<lparr>DeleteShardGroup := never_leader\<rparr>) start) =
     [LogShardGroupFailed 1 ''mydb'' ''autogen'' ''not leader'',
      LogShardGroupFailed 3 ''mydb'' ''autogen'' ''not leader'']"
proof -
  let ?s = "memory_service [] [] 100"
  let ?ps = "policies (Databases ?s (w_meta start))"
  let ?gs = "ExpiredShardGroups ?s (snd (?ps ! 0)) (Now ?s (w_reads start + 0))"
  have ids: "10 \<in> set (ShardIDs ?s (w_store start))" "11 \<in> set (ShardIDs ?s (w_store start))"
    by code_simp+
  have cand: "orphan_candidate ?s (Databases ?s (w_meta start)) 10"
    "orphan_candidate ?s (Databases ?s (w_meta start)) 11"
    by code_simp+
  have k: "0 < length ?ps"
    by code_simp
  have gs: "?gs = [group 1 0 False [7], group 3 50 False [12]]"
    by code_simp
  have g: "group 1 0 False [7] \<in> set ?gs" "group 3 50 False [12] \<in> set ?gs"
    by (simp_all only: gs list.set_intros)
  have n: "db_Name (fst (?ps ! 0)) = ''mydb''" "rp_Name (snd (?ps ! 0)) = ''autogen''"
    "sg_ID (group 1 0 False [7]) = 1" "sg_ID (group 3 50 False [12]) = 3"
    by code_simp+
  have m: "map sg_ID ?gs = [1, 3]"
    by code_simp
  have l1: "w_log (deleteShards (?s\<lparr>DeleteShard := always_busy\<rparr>) start) =
      [LogCommencing, LogShardFailed 10 ''otherdb'' ''forever'' ''disk busy'',
       LogShardFailed 11 ''mydb'' ''weekly'' ''disk busy'']"
    by code_simp
  have l2: "w_log (deleteShardGroups (?s\<lparr>DeleteShardGroup := never_leader\<rparr>) start) =
      [LogShardGroupFailed 1 ''mydb'' ''autogen'' ''not leader'',
       LogShardGroupFailed 3 ''mydb'' ''autogen'' ''not leader'']"
    by code_simp
  note t = sweeps_do_not_abort [of ?s start always_busy never_leader]
  from t ids cand have a: "CallDeleteShard 10 \<in> set (calls_of (deleteShards (?s\<lparr>DeleteShard := always_busy\<rparr>)) start)"
    "CallDeleteShard 11 \<in> set (calls_of (deleteShards (?s\<lparr>DeleteShard := always_busy\<rparr>)) start)"
    by blast+
  from t k g have "CallDeleteShardGroup (db_Name (fst (?ps ! 0))) (rp_Name (snd (?ps ! 0)))
        (sg_ID (group 1 0 False [7])) \<in>
      set (calls_of (deleteShardGroups (?s\<lparr>DeleteShardGroup := never_leader\<rparr>)) start)"
    "CallDeleteShardGroup (db_Name (fst (?ps ! 0))) (rp_Name (snd (?ps ! 0)))
        (sg_ID (group 3 50 False [12])) \<in>
      set (calls_of (deleteShardGroups (?s\<lparr>DeleteShardGroup := never_leader\<rparr>)) start)"
    by blast+
  then have b: "CallDeleteShardGroup ''mydb'' ''autogen'' 1 \<in>
      set (calls_of (deleteShardGroups (?s\<lparr>DeleteShardGroup := never_leader\<rparr>)) start)"
    "CallDeleteShardGroup ''mydb'' ''autogen'' 3 \<in>
      set (calls_of (deleteShardGroups (?s\<lparr>DeleteShardGroup := never_leader\<rparr>)) start)"
    by (simp_all only: n)
  from ids cand a l1 m b l2 show ?thesis
    by (intro conjI)
qed

text \<open>
  Scenario 3 of the spec: \<^verbatim>\<open>DeleteShard(11)\<close> fails with "disk busy"; shard 10 is deleted
  all the same, shard 11 stays in the store and the failure is logged.
\<close>

lemma deleteShards_disk_busy:
  "calls_of (deleteShards (memory_service [] [11] 30)) start =
     [CallDatabases, CallShardIDs, CallDeleteShard 10, CallDeleteShard 11] \<and>
   w_log (deleteShards (memory_service [] [11] 30) start) =
     [LogCommencing, LogShardDeleted 10 ''otherdb'' ''forever'',
      LogShardFailed 11 ''mydb'' ''weekly'' ''disk busy''] \<and>
   w_store (deleteShards (memory_service [] [11] 30) start) = [11, 12]"
  by code_simp

subsection \<open>Each sweep keeps to its own layer\<close>

lemma reap_shard_group_store: "w_store (reap_shard_group s d r g w) = w_store w"
  by (auto simp: reap_shard_group_def invoke_def logger_Print_def split: option.splits prod.splits)

lemma fold_reap_shard_group_store: "w_store (fold (reap_shard_group s d r) gs w) = w_store w"
  by (induction gs arbitrary: w) (simp_all add: reap_shard_group_store)

lemma sweep_policy_store: "w_store (sweep_policy s d r w) = w_store w"
  by (simp add: sweep_policy_def Let_def fold_reap_shard_group_store)

lemma fold_sweep_policy_store:
  "w_store (fold (\<lambda>p. sweep_policy s (fst p) (snd p)) ps w) = w_store w"
  by (induction ps arbitrary: w) (simp_all add: sweep_policy_store)

lemma deleteShardGroups_store: "w_store (deleteShardGroups s w) = w_store w"
  by (simp add: deleteShardGroups_def Let_def fold_policies fold_sweep_policy_store invoke_def)

lemma reap_shard_meta: "w_meta (reap_shard s m i w) = w_meta w"
  by (auto simp: reap_shard_def invoke_def logger_Print_def split: option.splits prod.splits)

lemma fold_reap_shard_meta: "w_meta (fold (reap_shard s m) ids w) = w_meta w"
  by (induction ids arbitrary: w) (simp_all add: reap_shard_meta)

lemma deleteShards_meta: "w_meta (deleteShards s w) = w_meta w"
  by (simp add: deleteShards_def Let_def fold_reap_shard_meta invoke_def logger_Print_def)

text \<open>
  C7 (loop independence of effects). A sweep of \<^verbatim>\<open>deleteShardGroups\<close> invokes no method
  of the shard store (neither \<^verbatim>\<open>ShardIDs\<close> nor \<^verbatim>\<open>DeleteShard\<close>) and leaves the store's
  state as it was; a sweep of \<^verbatim>\<open>deleteShards\<close> never invokes \<^verbatim>\<open>DeleteShardGroup\<close> and
  leaves the meta client's state as it was.
\<close>

theorem sweeps_keep_to_their_layer:
  "(\<forall>c \<in> set (calls_of (deleteShardGroups s) w). \<not> on_store c) \<and>
   w_store (deleteShardGroups s w) = w_store w \<and>
   (\<forall>c \<in> set (calls_of (deleteShards s) w). \<not> is_DeleteShardGroup c) \<and>
   w_meta (deleteShards s w) = w_meta w"
  by (auto simp: deleteShardGroups_calls deleteShards_calls deleteShardGroups_store
      deleteShards_meta policy_batch_def)

theorem sweeps_keep_to_their_layer_witness:
  "CallDeleteShardGroup ''mydb'' ''autogen'' 1 \<in> set (calls_of (deleteShardGroups (memory_service [] [] 30)) start) \<and>
   \<not> on_store (CallDeleteShardGroup ''mydb'' ''autogen'' 1) \<and>
   CallDeleteShard 10 \<in> set (calls_of (deleteShards (memory_service [] [] 30)) start) \<and>
   \<not> is_DeleteShardGroup (CallDeleteShard 10) \<and>
   w_store (deleteShardGroups (memory_service [] [] 30) start) = [10, 11, 12] \<and>
   w_meta (deleteShards (memory_service [] [] 30) start) = [mydb, otherdb]"
proof -
  have a: "CallDeleteShardGroup ''mydb'' ''autogen'' 1 \<in> set (calls_of (deleteShardGroups (memory_service [] [] 30)) start)"
    and b: "CallDeleteShard 10 \<in> set (calls_of (deleteShards (memory_service [] [] 30)) start)"
    by code_simp+
  have c: "w_store start = [10, 11, 12]" "w_meta start = [mydb, otherdb]"
    by (simp_all add: start_def)
  show ?thesis
    using a b c sweeps_keep_to_their_layer [of "memory_service [] [] 30" start]
    by auto
qed

subsection \<open>Duplicate shard IDs in the orphan map\<close>

text \<open>
  C8 (duplicate-ID resolution in the orphan map). Take any assignment
  \<^verbatim>\<open>deletedShardIDs[i] = di\<close> of the map-building loops after which the loops assign no
  entry for \<open>i\<close> again, whatever they assigned before: the finished map holds \<open>di\<close> for
  \<open>i\<close>, so a later entry has overwritten the earlier ones, and no error arises (the map
  is built by a total function). With \<^verbatim>\<open>ShardIDs()\<close> listing every physical shard once,
  \<^verbatim>\<open>DeleteShard(i)\<close> is invoked at most once in the sweep, however many deleted groups
  list \<open>i\<close>.
\<close>

theorem duplicate_shard_ids_last_wins:
  assumes entries: "orphan_entries s (Databases s (w_meta w)) = before @ (i, di) # after"
    and last: "i \<notin> fst ` set after"
    and ids: "distinct (ShardIDs s (w_store w))"
  shows "collect_deleted s (Databases s (w_meta w)) Map.empty i = Some di \<and>
     count_list (calls_of (deleteShards s) w) (CallDeleteShard i) \<le> 1"
proof
  have "map_of (rev after) i = None"
    using last by (simp add: map_of_eq_None_iff)
  then show "collect_deleted s (Databases s (w_meta w)) Map.empty i = Some di"
    by (simp add: collect_deleted_entries entries map_add_def)
next
  have "inj CallDeleteShard"
    by (simp add: inj_def)
  then have "distinct (calls_of (deleteShards s) w)"
    using ids by (auto simp: deleteShards_calls distinct_map intro: inj_on_subset)
  then show "count_list (calls_of (deleteShards s) w) (CallDeleteShard i) \<le> 1"
    by (simp add: count_list_distinct)
qed

theorem duplicate_shard_ids_last_wins_witness:
  "collect_deleted (memory_service [] [] 30) [mydb, otherdb] Map.empty 10 =
     Some \<lparr>di_db = ''otherdb'', di_rp = ''forever''\<rparr> \<and>
   count_list (calls_of (deleteShards (memory_service [] [] 30)) start) (CallDeleteShard 10) \<le> 1"
proof -
  let ?s = "memory_service [] [] 30"
  have e: "orphan_entries ?s (Databases ?s (w_meta start)) =
      [(10, \<lparr>di_db = ''mydb'', di_rp = ''weekly''\<rparr>), (11, \<lparr>di_db = ''mydb'', di_rp = ''weekly''\<rparr>)] @
      (10, \<lparr>di_db = ''otherdb'', di_rp = ''forever''\<rparr>) # []"
    by code_simp
  have l: "(10::uint64) \<notin> fst ` set ([] :: (uint64 \<times> deletionInfo) list)"
    by simp
  have d: "distinct (ShardIDs ?s (w_store start))"
    by code_simp
  have m: "Databases ?s (w_meta start) = [mydb, otherdb]"
    by (simp add: memory_service_def start_def)
  show ?thesis
    using duplicate_shard_ids_last_wins [OF e l d] by (simp only: m)
qed

section \<open>Verification of the series identity\<close>

lemma fold_append_keys: "fold (\<lambda>k a. a @ [k]) ks acc = acc @ ks"
  by (induction ks arbitrary: acc) simp_all

lemma sort_range_order:
  assumes "range_order m ks"
  shows "sort (fold (\<lambda>k a. a @ [k]) ks []) = sorted_list_of_set (dom m)"
proof -
  have d: "distinct ks" and s: "dom m = set ks"
    using assms by (simp_all add: range_order_def)
  have "sorted_list_of_set (set ks) = sort ks"
    using d by (simp add: sorted_list_of_set_sort_remdups distinct_remdups_id)
  then show ?thesis
    by (simp add: fold_append_keys s)
qed

lemma tagsKeys_range_order:
  "range_order m ks \<Longrightarrow> tagsKeys ks = sorted_list_of_set (dom m)"
  by (simp add: tagsKeys_def sort_range_order)

lemma tagsHash_sorted_keys:
  assumes "range_order (row_Tags z) ks"
  shows "tagsHash H ks z =
     Sum64 H
       (fold (\<lambda>k h. Write H (index_or_empty (row_Tags z) k) (Write H k h))
          (sorted_list_of_set (dom (row_Tags z))) (NewInlineFNV64a H))"
  using assms by (simp add: tagsHash_def tagsKeys_range_order)

lemma tagsHash_same_tags:
  assumes "range_order (row_Tags z) kz" and "range_order (row_Tags y) ky"
    and "row_Tags z = row_Tags y"
  shows "tagsHash H kz z = tagsHash H ky y"
  using assms by (simp add: tagsHash_sorted_keys)

text \<open>
  C9 (\<^verbatim>\<open>Row.SameSeries\<close> is symmetric and well-defined). Whatever orders the runtime
  chooses for ranging over the two \<^verbatim>\<open>Tags\<close> maps, in the call \<^verbatim>\<open>r.SameSeries(o)\<close> and in
  the call \<^verbatim>\<open>o.SameSeries(r)\<close>, the two calls return the same; and two rows with the same
  keys and values in their \<^verbatim>\<open>Tags\<close> have the same tags hash, whatever those orders and
  whatever their other fields are, since the keys are sorted before they are hashed.
\<close>

theorem SameSeries_symmetric:
  assumes "range_order (row_Tags r) kr" and "range_order (row_Tags r) kr'"
    and "range_order (row_Tags y) ky" and "range_order (row_Tags y) ky'"
  shows "SameSeries H kr ky r y = SameSeries H ky' kr' y r \<and>
     (row_Tags r = row_Tags y \<longrightarrow> tagsHash H kr r = tagsHash H ky y)"
proof -
  have "tagsHash H kr r = tagsHash H kr' r"
    using assms(1,2) by (rule tagsHash_same_tags) simp
  moreover have "tagsHash H ky y = tagsHash H ky' y"
    using assms(3,4) by (rule tagsHash_same_tags) simp
  moreover have "tagsHash H kr r = tagsHash H ky y" if "row_Tags r = row_Tags y"
    using assms(1,3) that by (rule tagsHash_same_tags)
  ultimately show ?thesis
    unfolding SameSeries_def by metis
qed

theorem SameSeries_symmetric_witness:
  "range_order (row_Tags (cpu_row ''cpu'')) [''host'', ''region''] \<and>
   range_order (row_Tags (cpu_row ''cpu'')) [''region'', ''host''] \<and>
   range_order (row_Tags (cpu_row ''mem'')) [''region'', ''host''] \<and>
   range_order (row_Tags (cpu_row ''mem'')) [''host'', ''region''] \<and>
   SameSeries fnv64a [''host'', ''region''] [''region'', ''host''] (cpu_row ''cpu'') (cpu_row ''mem'') =
     SameSeries fnv64a [''host'', ''region''] [''region'', ''host''] (cpu_row ''mem'') (cpu_row ''cpu'') \<and>
   row_Tags (cpu_row ''cpu'') = row_Tags (cpu_row ''mem'') \<and>
   tagsHash fnv64a [''host'', ''region''] (cpu_row ''cpu'') = 14689727869534019605 \<and>
   tagsHash fnv64a [''region'', ''host''] (cpu_row ''mem'') = 14689727869534019605"
proof -
  have a: "range_order (row_Tags (cpu_row n)) [''host'', ''region'']" for n :: string
    unfolding range_order_def cpu_row_def by (simp add: insert_commute)
  have b: "range_order (row_Tags (cpu_row n)) [''region'', ''host'']" for n :: string
    unfolding range_order_def cpu_row_def by simp
  have t: "row_Tags (cpu_row ''cpu'') = row_Tags (cpu_row ''mem'')"
    by (simp add: cpu_row_def)
  have h: "tagsHash fnv64a [''region'', ''host''] (cpu_row ''mem'') = 14689727869534019605"
    by (simp add: tagsHash_def tagsKeys_def fnv64a_def cpu_row_def index_or_empty_def)
  show ?thesis
    using SameSeries_symmetric [OF a [of "''cpu''"] b [of "''cpu''"] b [of "''mem''"]
        a [of "''mem''"], where H = fnv64a] a b t h
    by simp
qed

section \<open>Verification of the /debug/vars handler\<close>

lemma emit_stat_writes:
  "emit_stat M T sm ik body = body @ stat_writes M T sm ik"
  by (simp add: emit_stat_def stat_writes_def split: option.splits)

lemma fold_emit_stat:
  "fold (emit_stat M T sm) iks body = body @ concat (map (stat_writes M T sm) iks)"
  by (induction iks arbitrary: body) (simp_all add: emit_stat_writes)

lemma emitted_stat_writes:
  "emitted (stat_writes M T sm ik @ rest) =
     (case M (sm (snd ik)) of None \<Rightarrow> emitted rest | Some out \<Rightarrow> (snd ik, T out) # emitted rest)"
  by (simp add: stat_writes_def emit_stat_def split: option.splits)

lemma emitted_concat_stat_writes:
  "emitted (concat (map (stat_writes M T sm) iks) @ rest) =
     List.map_filter (\<lambda>ik. map_option (\<lambda>out. (snd ik, T out)) (M (sm (snd ik)))) iks @ emitted rest"
  by (induction iks) (simp_all add: emitted_stat_writes List.map_filter_simps split: option.splits)

lemma map_filter_enumerate:
  "List.map_filter (\<lambda>ik. map_option (\<lambda>out. (snd ik, T out)) (M (sm (snd ik)))) (enumerate n keys) =
     List.map_filter (\<lambda>k. map_option (\<lambda>out. (k, T out)) (M (sm k))) keys"
  by (induction keys arbitrary: n) (simp_all add: List.map_filter_simps split: option.splits)

lemma serveExpvar_emitted:
  "emitted (resp_body (serveExpvar M T (Inr stats) ks)) =
     List.map_filter (\<lambda>k. map_option (\<lambda>out. (k, T out)) (M (build_statMap stats k)))
       (sort (fold (\<lambda>k a. a @ [k]) ks []))"
  by (simp add: serveExpvar_def Let_def new_response_def fold_emit_stat
      emitted_concat_stat_writes map_filter_enumerate)

lemma fold_stats_put:
  "fold (\<lambda>s m. m(stat_key s \<mapsto> s)) stats = fold put_entry (map (\<lambda>s. (stat_key s, s)) stats)"
proof -
  have "(\<lambda>s m. m(stat_key s \<mapsto> s)) = put_entry \<circ> (\<lambda>s. (stat_key s, s))"
    by (simp add: fun_eq_iff put_entry_def)
  then have "fold (\<lambda>s m. m(stat_key s \<mapsto> s)) stats =
      fold (put_entry \<circ> (\<lambda>s. (stat_key s, s))) stats"
    by (rule arg_cong)
  then show ?thesis
    by (simp only: fold_map)
qed

lemma last_with_key_snoc:
  "last_with_key (xs @ [x]) k = (if stat_key x = k then Some x else last_with_key xs k)"
  by (simp add: last_with_key_def)

lemma build_statMap_last: "build_statMap stats k = last_with_key stats k"
proof -
  have "map_of (rev (map (\<lambda>s. (stat_key s, s)) stats)) k = last_with_key stats k"
    by (induction stats rule: rev_induct) (simp_all add: last_with_key_snoc last_with_key_def)
  then show ?thesis
    by (simp add: build_statMap_def fold_stats_put fold_put_entry)
qed

lemma map_fst_map_filter:
  "map fst (List.map_filter (\<lambda>k. map_option (\<lambda>out. (k, f out)) (g k)) keys) =
     filter (\<lambda>k. g k \<noteq> None) keys"
  by (induction keys) (auto simp: List.map_filter_simps)

lemma last_with_key_Some: "s \<in> set stats \<Longrightarrow> last_with_key stats (stat_key s) \<noteq> None"
  by (auto simp: last_with_key_def filter_empty_conv)

text \<open>
  C10 (order and duplicates in \<^verbatim>\<open>serveExpvar\<close>). When \<^verbatim>\<open>Statistics\<close> succeeds, the keys
  that the handler prints are in strictly ascending lexicographic order; every printed key
  is followed by the trimmed JSON of the statistic that was stored last under that key,
  so an earlier statistic with the same key is dropped; and every key whose last statistic
  can be marshalled is printed.
\<close>

theorem serveExpvar_sorted_last_wins:
  assumes order: "range_order (build_statMap stats) ks"
  shows "sorted_wrt (<) (map fst (emitted (resp_body (serveExpvar Marshal TrimSpace (Inr stats) ks)))) \<and>
     (\<forall>kj \<in> set (emitted (resp_body (serveExpvar Marshal TrimSpace (Inr stats) ks))).
        \<exists>s out. last_with_key stats (fst kj) = Some s \<and> Marshal (Some s) = Some out \<and>
          snd kj = TrimSpace out) \<and>
     (\<forall>s \<in> set stats. Marshal (last_with_key stats (stat_key s)) \<noteq> None \<longrightarrow>
        stat_key s \<in> fst ` set (emitted (resp_body (serveExpvar Marshal TrimSpace (Inr stats) ks))))"
proof -
  let ?keys = "sort (fold (\<lambda>k a. a @ [k]) ks [])"
  let ?out = "emitted (resp_body (serveExpvar Marshal TrimSpace (Inr stats) ks))"
  have keys: "?keys = sorted_list_of_set (dom (build_statMap stats))"
    using order by (rule sort_range_order)
  have out: "?out =
      List.map_filter (\<lambda>k. map_option (\<lambda>out. (k, TrimSpace out)) (Marshal (last_with_key stats k))) ?keys"
    by (simp only: serveExpvar_emitted build_statMap_last)
  have fin: "finite (dom (build_statMap stats))"
    using order by (auto simp: range_order_def intro: finite_subset [OF _ finite_set])
  have "sorted_wrt (<) ?keys"
    unfolding keys by (rule strict_sorted_list_of_set)
  then have "sorted_wrt (<) (filter (\<lambda>k. Marshal (last_with_key stats k) \<noteq> None) ?keys)"
    by (rule sorted_wrt_filter)
  then have a: "sorted_wrt (<) (map fst ?out)"
    by (simp only: out map_fst_map_filter)
  have b: "\<exists>s out. last_with_key stats (fst kj) = Some s \<and> Marshal (Some s) = Some out \<and>
      snd kj = TrimSpace out" if "kj \<in> set ?out" for kj
  proof -
    from that obtain k out where k: "k \<in> set ?keys" and m: "Marshal (last_with_key stats k) = Some out"
      and kj: "kj = (k, TrimSpace out)"
      unfolding out by (auto simp: List.map_filter_def)
    from k fin have "k \<in> dom (build_statMap stats)"
      by (simp add: keys)
    then obtain s where "last_with_key stats k = Some s"
      by (auto simp: build_statMap_last)
    with m kj show ?thesis
      by auto
  qed
  have c: "stat_key s \<in> fst ` set ?out"
    if "s \<in> set stats" and "Marshal (last_with_key stats (stat_key s)) \<noteq> None" for s
  proof -
    have "stat_key s \<in> dom (build_statMap stats)"
      using that(1) last_with_key_Some [of s stats] by (auto simp: build_statMap_last)
    then have "stat_key s \<in> set ?keys"
      using fin by (simp add: keys)
    then have "stat_key s \<in> set (filter (\<lambda>k. Marshal (last_with_key stats k) \<noteq> None) ?keys)"
      using that(2) by simp
    then have "stat_key s \<in> set (map fst ?out)"
      by (simp only: out map_fst_map_filter)
    then show ?thesis
      by simp
  qed
  from a b c show ?thesis
    by blast
qed

theorem serveExpvar_sorted_last_wins_witness:
  "range_order (build_statMap three_stats) [''shard:/data/1:1'', ''httpd::8086''] \<and>
   emitted (resp_body (serveExpvar unary_Marshal trim_spaces (Inr three_stats)
     [''shard:/data/1:1'', ''httpd::8086''])) =
     [(''httpd::8086'', ''||||||''), (''shard:/data/1:1'', ''|||||||'')] \<and>
   sorted_wrt (<) [''httpd::8086'', ''shard:/data/1:1''] \<and>
   last_with_key three_stats ''shard:/data/1:1'' =
     Some (stat ''shard'' [''path'' \<mapsto> ''/data/1'', ''id'' \<mapsto> ''1'', ''database'' \<mapsto> ''db''] 7)"
proof -
  have r: "range_order (build_statMap three_stats) [''shard:/data/1:1'', ''httpd::8086'']"
    by (simp add: range_order_def build_statMap_def three_stats_def stat_def stat_key_def
        colon_tag_def insert_commute)
  have e: "emitted (resp_body (serveExpvar unary_Marshal trim_spaces (Inr three_stats)
      [''shard:/data/1:1'', ''httpd::8086''])) =
      [(''httpd::8086'', ''||||||''), (''shard:/data/1:1'', ''|||||||'')]"
    by code_simp
  have l: "last_with_key three_stats ''shard:/data/1:1'' =
      Some (stat ''shard'' [''path'' \<mapsto> ''/data/1'', ''id'' \<mapsto> ''1'', ''database'' \<mapsto> ''db''] 7)"
    by (simp add: last_with_key_def three_stats_def stat_def stat_key_def colon_tag_def)
  show ?thesis
    using serveExpvar_sorted_last_wins [OF r, of unary_Marshal trim_spaces] r e l
    by simp
qed

section \<open>Verification of the goroutines\<close>

subsection \<open>The wait group counts the running loops\<close>

lemma running_nonneg: "0 \<le> running pc"
  by (cases pc) simp_all

lemma accounted_Open: "accounted (Open NewService)"
  by (simp add: accounted_def Open_def NewService_def)

lemma accounted_sweep:
  "accounted s \<Longrightarrow> loop s r = Selecting \<Longrightarrow> accounted (s\<lparr>loop := (loop s)(r := Sweeping)\<rparr>)"
  using running_nonneg [of "loop s ShardGroups"] running_nonneg [of "loop s Shards"]
  by (cases r) (auto simp: accounted_def)

lemma accounted_select:
  "accounted s \<Longrightarrow> loop s r = Sweeping \<Longrightarrow> accounted (s\<lparr>loop := (loop s)(r := Selecting)\<rparr>)"
  using running_nonneg [of "loop s ShardGroups"] running_nonneg [of "loop s Shards"]
  by (cases r) (auto simp: accounted_def)

lemma accounted_handoff: "accounted s \<Longrightarrow> accounted (handoff r s)"
  using running_nonneg [of "loop s ShardGroups"] running_nonneg [of "loop s Shards"]
  by (cases r) (auto simp: accounted_def)

lemma accounted_exit:
  "accounted s \<Longrightarrow> loop s r = Selecting \<Longrightarrow> done_closed s \<Longrightarrow>
     accounted (s\<lparr>loop := (loop s)(r := Exited), wg := wg s - 1\<rparr>)"
  using running_nonneg [of "loop s ShardGroups"] running_nonneg [of "loop s Shards"]
  by (cases r) (auto simp: accounted_def)

lemma accounted_wg_pos: "accounted s \<Longrightarrow> loop s r = Selecting \<Longrightarrow> 0 < wg s"
  using running_nonneg [of "loop s ShardGroups"] running_nonneg [of "loop s Shards"]
  by (cases r) (auto simp: accounted_def)

lemma accounted_step:
  assumes acc: "accounted s" and st: "step e s = Some s'"
  shows "accounted s'"
proof (cases e)
  case Post
  with assms show ?thesis
    by (auto simp: step_def accounted_def split: if_splits)
next
  case (Force r)
  with st have "loop s r = Selecting" and "s' = handoff r (s\<lparr>loop := (loop s)(r := Sweeping)\<rparr>)"
    by (simp_all add: step_def split: if_splits)
  with acc show ?thesis
    by (simp add: accounted_handoff accounted_sweep)
next
  case (Tick r)
  with st have "loop s r = Selecting" and "s' = s\<lparr>loop := (loop s)(r := Sweeping)\<rparr>"
    by (simp_all add: step_def split: if_splits)
  with acc show ?thesis
    by (simp add: accounted_sweep)
next
  case (Invoke r)
  with assms show ?thesis
    by (simp add: step_def split: if_splits)
next
  case (Finish r)
  with st have "loop s r = Sweeping" and "s' = s\<lparr>loop := (loop s)(r := Selecting)\<rparr>"
    by (simp_all add: step_def split: if_splits)
  with acc show ?thesis
    by (simp add: accounted_select)
next
  case (Shutdown r)
  with st have sel: "loop s r = Selecting" and cl: "done_closed s"
    by (simp_all add: step_def split: if_splits)
  from acc sel have "0 < wg s"
    by (rule accounted_wg_pos)
  with Shutdown st sel cl have "s' = s\<lparr>loop := (loop s)(r := Exited), wg := wg s - 1\<rparr>"
    by (simp add: step_def split: if_splits)
  with acc sel cl show ?thesis
    by (simp add: accounted_exit)
next
  case CallClose
  with assms show ?thesis
    by (auto simp: step_def accounted_def split: if_splits)
next
  case ReturnClose
  with assms show ?thesis
    by (auto simp: step_def accounted_def split: if_splits)
qed

lemma accounted_run:
  "accounted s \<Longrightarrow> run es s = Some s' \<Longrightarrow> accounted s'"
proof (induction es arbitrary: s)
  case Nil
  then show ?case by simp
next
  case (Cons e es)
  from Cons.prems(2) obtain s1 where s1: "step e s = Some s1" and rest: "run es s1 = Some s'"
    by (auto split: option.splits)
  from Cons.prems(1) s1 have "accounted s1"
    by (rule accounted_step)
  then show ?case
    using rest by (rule Cons.IH)
qed

subsection \<open>Shutdown\<close>

lemma handoff_loop: "loop (handoff q s) = loop s"
  by (cases q) simp_all

lemma exited_step:
  assumes ex: "loop s r = Exited" and st: "step e s = Some s'"
  shows "loop s' r = Exited \<and> moves e \<noteq> Some r"
proof (cases e)
  case (Force q)
  with st ex show ?thesis
    by (auto simp: step_def handoff_loop split: if_splits)
next
  case (Tick q)
  with st ex show ?thesis
    by (auto simp: step_def split: if_splits)
next
  case (Invoke q)
  with st ex show ?thesis
    by (auto simp: step_def split: if_splits)
next
  case (Finish q)
  with st ex show ?thesis
    by (auto simp: step_def split: if_splits)
next
  case (Shutdown q)
  with st ex show ?thesis
    by (auto simp: step_def split: if_splits)
next
  case Post
  with st ex show ?thesis
    by (auto simp: step_def split: if_splits)
next
  case CallClose
  with st ex show ?thesis
    by (auto simp: step_def split: if_splits)
next
  case ReturnClose
  with st ex show ?thesis
    by (auto simp: step_def split: if_splits)
qed

lemma exited_run:
  "loop s r = Exited \<Longrightarrow> run es s = Some s' \<Longrightarrow>
     loop s' r = Exited \<and> (\<forall>e \<in> set es. moves e \<noteq> Some r)"
proof (induction es arbitrary: s)
  case Nil
  then show ?case by simp
next
  case (Cons e es)
  from Cons.prems obtain s1 where s1: "step e s = Some s1" and rest: "run es s1 = Some s'"
    by (auto split: option.splits)
  from exited_step [OF Cons.prems(1) s1] have "loop s1 r = Exited" and "moves e \<noteq> Some r"
    by simp_all
  with Cons.IH [OF _ rest] show ?case
    by simp
qed

lemma run_append:
  "run (es @ es') s = (case run es s of None \<Rightarrow> None | Some s1 \<Rightarrow> run es' s1)"
  by (induction es arbitrary: s) (auto split: option.splits)

lemma Shutdown_step:
  assumes acc: "accounted s" and st: "step (Shutdown r) s = Some s'"
  shows "loop s' r = Exited"
proof -
  from st have sel: "loop s r = Selecting"
    by (simp add: step_def split: if_splits)
  with acc have "0 < wg s"
    by (rule accounted_wg_pos)
  with st show ?thesis
    by (auto simp: step_def split: if_splits)
qed

lemma accounted_exited:
  assumes "accounted s" and "0 < close_returned s"
  shows "loop s r = Exited"
proof -
  from assms have "running (loop s ShardGroups) + running (loop s Shards) = 0"
    and "loop s ShardGroups \<noteq> NotStarted" and "loop s Shards \<noteq> NotStarted"
    by (simp_all add: accounted_def)
  then have "loop s ShardGroups = Exited \<and> loop s Shards = Exited"
    using running_nonneg [of "loop s ShardGroups"] running_nonneg [of "loop s Shards"]
    by (cases "loop s ShardGroups"; cases "loop s Shards"; simp)
  then show ?thesis
    by (cases r) simp_all
qed

text \<open>
  C4 (clean shutdown). The service has been opened. In every state in which a call of
  \<^verbatim>\<open>Close\<close> has returned, both loops have returned, and in whatever happens afterwards no
  step belongs to a loop: no sweep starts and none invokes the meta client or the store.
  And in the run so far, after a loop has taken the shutdown case of its \<^verbatim>\<open>select\<close>, no
  later step belongs to that loop: it has left before starting another sweep.
\<close>

theorem clean_shutdown:
  assumes reach: "run es (Open NewService) = Some s"
    and returned: "0 < close_returned s"
    and later: "run es' s = Some s'"
  shows "loop s ShardGroups = Exited \<and> loop s Shards = Exited \<and>
     (\<forall>e \<in> set es'. moves e = None) \<and>
     (\<forall>r before after. es = before @ Shutdown r # after \<longrightarrow>
        (\<forall>e \<in> set after. moves e \<noteq> Some r))"
proof -
  have acc: "accounted s"
    using accounted_Open reach by (rule accounted_run)
  have ex: "loop s r = Exited" for r
    using acc returned by (rule accounted_exited)
  have none: "moves e = None" if "e \<in> set es'" for e
  proof (cases "moves e")
    case None
    then show ?thesis .
  next
    case (Some r)
    from exited_run [OF ex later] that Some show ?thesis
      by auto
  qed
  have obs: "moves e \<noteq> Some r" if split: "es = before @ Shutdown r # after" and e: "e \<in> set after"
    for r before after e
  proof -
    from reach split obtain s1 s2 where s1: "run before (Open NewService) = Some s1"
      and s2: "step (Shutdown r) s1 = Some s2" and rest: "run after s2 = Some s"
      by (auto simp: run_append split: option.splits)
    have "accounted s1"
      using accounted_Open s1 by (rule accounted_run)
    then have "loop s2 r = Exited"
      using s2 by (rule Shutdown_step)
    from exited_run [OF this rest] e show ?thesis
      by simp
  qed
  from ex none obs show ?thesis
    by blast
qed

theorem clean_shutdown_witness:
  "\<exists>s s'. run [Tick ShardGroups, Invoke ShardGroups, CallClose, Shutdown Shards, Finish ShardGroups,
       Shutdown ShardGroups, ReturnClose] (Open NewService) = Some s \<and>
     0 < close_returned s \<and> run [Post] s = Some s' \<and>
     loop s ShardGroups = Exited \<and> loop s Shards = Exited \<and> moves Post = None \<and>
     moves ReturnClose \<noteq> Some ShardGroups"
proof -
  let ?es = "[Tick ShardGroups, Invoke ShardGroups, CallClose, Shutdown Shards, Finish ShardGroups,
       Shutdown ShardGroups, ReturnClose]"
  have "\<exists>s s'. run ?es (Open NewService) = Some s \<and> 0 < close_returned s \<and> run [Post] s = Some s'"
    by (simp add: step_def Open_def NewService_def)
  then obtain s s' where r: "run ?es (Open NewService) = Some s" and c: "0 < close_returned s"
    and l: "run [Post] s = Some s'"
    by blast
  have e: "?es = [Tick ShardGroups, Invoke ShardGroups, CallClose, Shutdown Shards, Finish ShardGroups] @
      Shutdown ShardGroups # [ReturnClose]"
    by simp
  from clean_shutdown [OF r c l] e have "loop s ShardGroups = Exited \<and> loop s Shards = Exited \<and>
      moves Post = None \<and> moves ReturnClose \<noteq> Some ShardGroups"
    by (metis list.set_intros(1))
  with r c l show ?thesis
    by blast
qed

subsection \<open>The force triggers\<close>

lemma sending_step:
  assumes "step e s = Some s'"
  shows "sending s' ShardGroups + count_list [e] (Force ShardGroups) =
        sending s ShardGroups + count_list [e] Post \<and>
     sending s' Shards + count_list [e] (Force Shards) =
        sending s Shards + count_list [e] (Force ShardGroups)"
proof (cases e)
  case (Force r)
  with assms show ?thesis
    by (cases r) (auto simp: step_def split: if_splits)
next
  case (Shutdown r)
  with assms show ?thesis
    by (auto simp: step_def split: if_splits)
qed (use assms in \<open>auto simp: step_def split: if_splits\<close>)

lemma sending_run:
  "run es s = Some s' \<Longrightarrow>
     sending s' ShardGroups + count_list es (Force ShardGroups) =
        sending s ShardGroups + count_list es Post \<and>
     sending s' Shards + count_list es (Force Shards) =
        sending s Shards + count_list es (Force ShardGroups)"
proof (induction es arbitrary: s)
  case Nil
  then show ?case by simp
next
  case (Cons e es)
  from Cons.prems obtain s1 where s1: "step e s = Some s1" and rest: "run es s1 = Some s'"
    by (auto split: option.splits)
  from sending_step [OF s1] Cons.IH [OF rest] show ?case
    by (simp split: if_splits)
qed

lemma Force_enabled:
  "step (Force r) s \<noteq> None \<longleftrightarrow> \<not> panicked s \<and> loop s r = Selecting \<and> 0 < sending s r"
  by (simp add: step_def)

lemma Force_effect:
  assumes "step (Force r) s = Some s'"
  shows "loop s' r = Sweeping \<and> sending s' r < sending s r"
  using assms by (cases r) (auto simp: step_def split: if_splits)

text \<open>
  C5, as the code has it (the claim as stated fails, see the counterexample below). The
  service exposes one hook, the handler of \<^verbatim>\<open>POST /debug/enforce_retention\<close>, which sends
  on \<^verbatim>\<open>forceDeleteShardGroups\<close> and then on \<^verbatim>\<open>forceDeleteShards\<close>. In every state the
  service reaches after \<^verbatim>\<open>Open\<close>: the shard loop has accepted as many triggers as the
  shard-group loop, less those of the handlers waiting in the second send, and the
  shard-group loop as many as requests have arrived, less those of the handlers waiting in
  the first send; so a shard sweep is forced only after the shard-group loop has accepted
  the trigger of the same request. A trigger is handed off exactly when its loop stands at
  its \<^verbatim>\<open>select\<close> and a handler is blocked in the send, whatever the other loop and the
  ticker do; the handoff releases the handler while the sweep it started is still running.
\<close>

theorem force_trigger_handoff:
  assumes "run es (Open NewService) = Some s"
  shows "count_list es (Force Shards) + sending s Shards = count_list es (Force ShardGroups) \<and>
     count_list es (Force ShardGroups) + sending s ShardGroups = count_list es Post \<and>
     (\<forall>r. step (Force r) s \<noteq> None \<longleftrightarrow> \<not> panicked s \<and> loop s r = Selecting \<and> 0 < sending s r) \<and>
     (\<forall>r s'. step (Force r) s = Some s' \<longrightarrow> loop s' r = Sweeping \<and> sending s' r < sending s r)"
proof -
  from sending_run [OF assms]
  have "count_list es (Force Shards) + sending s Shards = count_list es (Force ShardGroups)"
    and "count_list es (Force ShardGroups) + sending s ShardGroups = count_list es Post"
    by (simp_all add: Open_def NewService_def)
  then show ?thesis
    using Force_enabled Force_effect by blast
qed

theorem force_trigger_handoff_witness:
  "\<exists>s s'. run [Tick ShardGroups, Post, Finish ShardGroups, Force ShardGroups] (Open NewService) = Some s \<and>
     step (Force Shards) s = Some s' \<and>
     loop s ShardGroups = Sweeping \<and> loop s' Shards = Sweeping \<and>
     sending s Shards = 1 \<and> sending s' Shards = 0"
proof -
  let ?es = "[Tick ShardGroups, Post, Finish ShardGroups, Force ShardGroups]"
  have "\<exists>s s'. run ?es (Open NewService) = Some s \<and> step (Force Shards) s = Some s' \<and>
      loop s ShardGroups = Sweeping \<and> sending s' Shards = 0"
    by (simp add: step_def Open_def NewService_def)
  then obtain s s' where r: "run ?es (Open NewService) = Some s"
    and f: "step (Force Shards) s = Some s'" and g: "loop s ShardGroups = Sweeping"
    and z: "sending s' Shards = 0"
    by blast
  from force_trigger_handoff [OF r] f have "loop s' Shards = Sweeping" and "sending s Shards = 1"
    by simp_all
  with r f g z show ?thesis
    by blast
qed

text \<open>
  The claim C5 as stated: each reaper has a trigger of its own, independent of the other
  reaper. A request arrives while the shard-group loop is in a sweep. The shard loop stands
  at its \<^verbatim>\<open>select\<close>, yet no trigger can be handed to it, nor to the shard-group loop; once
  the shard-group sweep has finished, its loop accepts the first send, and only then is the
  shard loop triggered.
\<close>

theorem force_trigger_counterexample:
  "map_option (\<lambda>s. (loop s Shards, sending s ShardGroups))
       (run [Tick ShardGroups, Post] (Open NewService)) = Some (Selecting, 1) \<and>
   run [Tick ShardGroups, Post, Force Shards] (Open NewService) = None \<and>
   run [Tick ShardGroups, Post, Force ShardGroups] (Open NewService) = None \<and>
   run [Tick ShardGroups, Post, Finish ShardGroups, Force ShardGroups, Force Shards]
       (Open NewService) \<noteq> None"
  by (simp add: step_def Open_def NewService_def)

subsection \<open>Closing twice\<close>

lemma panicked_stuck: "panicked s \<Longrightarrow> step e s = None"
  by (simp add: step_def)

text \<open>
  C6, as the code has it (the claim as stated fails, see the counterexample below).
  \<^verbatim>\<open>Close\<close> closes \<^verbatim>\<open>s.done\<close> without a guard. On a service that has been opened and
  closed, a second call of \<^verbatim>\<open>Close\<close> panics in \<^verbatim>\<open>close(s.done)\<close>: it does not reach
  \<^verbatim>\<open>s.wg.Wait()\<close>, so it does not block, and it does not return; after the panic no step
  is taken.
\<close>

theorem second_Close_panics:
  assumes reach: "run es (Open NewService) = Some s"
    and returned: "0 < close_returned s"
    and alive: "\<not> panicked s"
  shows "\<exists>s'. step CallClose s = Some s' \<and> panicked s' \<and>
     close_returned s' = close_returned s \<and> close_waiting s' = close_waiting s \<and>
     (\<forall>e. step e s' = None)"
proof -
  have "accounted s"
    using accounted_Open reach by (rule accounted_run)
  with returned have "done_closed s"
    by (simp add: accounted_def)
  with alive have "step CallClose s = Some (s\<lparr>panicked := True\<rparr>)"
    by (simp add: step_def)
  then show ?thesis
    by (simp add: panicked_stuck)
qed

theorem second_Close_panics_witness:
  "\<exists>s s'. run [CallClose, Shutdown ShardGroups, Shutdown Shards, ReturnClose] (Open NewService) = Some s \<and>
     0 < close_returned s \<and> \<not> panicked s \<and>
     step CallClose s = Some s' \<and> panicked s' \<and> step ReturnClose s' = None"
proof -
  let ?es = "[CallClose, Shutdown ShardGroups, Shutdown Shards, ReturnClose]"
  have "\<exists>s. run ?es (Open NewService) = Some s \<and> 0 < close_returned s \<and> \<not> panicked s"
    by (simp add: step_def Open_def NewService_def)
  then obtain s where r: "run ?es (Open NewService) = Some s" and c: "0 < close_returned s"
    and a: "\<not> panicked s"
    by blast
  from second_Close_panics [OF r c a] r c a show ?thesis
    by blast
qed

text \<open>
  The claim C6 as stated: a second \<^verbatim>\<open>Close\<close> does not panic. Open, close (both loops take
  the shutdown case and \<^verbatim>\<open>Close\<close> returns), close again: the process has panicked.
\<close>

theorem second_Close_counterexample:
  "map_option close_returned
       (run [CallClose, Shutdown ShardGroups, Shutdown Shards, ReturnClose] (Open NewService)) = Some 1 \<and>
   map_option panicked
       (run [CallClose, Shutdown ShardGroups, Shutdown Shards, ReturnClose, CallClose]
          (Open NewService)) = Some True"
  by (simp add: step_def Open_def NewService_def)

end
